theory Spec2Isabelle
  imports Main "HOL-Library.AList" "HOL-Library.Multiset" "HOL-Library.Sublist"
begin

section \<open>SenseStudio: project configuration and directory layout\<close>

text \<open>
  A shallow embedding of the request handlers of \<^verbatim>\<open>tools/sense_studio/sense_studio.py\<close>.
  Every handler reads the whole project configuration, changes it in memory and writes the
  whole document back; some of them then touch the directory tree of the project. The
  model passes the persistent state explicitly (\<open>world\<close>) and turns every uncaught Python
  exception into a \<open>Failed\<close> outcome that carries the state reached when it was raised.
\<close>

subsection \<open>Errors, paths and the persistent state\<close>

text \<open>The Python exceptions the handlers can raise; none of them is caught in the source.\<close>

datatype error =
    KeyError
  | ValueError
  | TypeError
  | FileNotFoundError
  | FileExistsError
  | NotADirectoryError
  | IsADirectoryError
  | DirectoryNotEmpty
  | InvalidArgument
  | IndexError
  | JSONDecodeError
  | FfmpegError

text \<open>
  A path is the list of its components below the file-system root; \<open>os.path.join base n\<close>
  is \<open>base @ [n]\<close>. Names are taken to be single components (no separator inside).
\<close>

type_synonym path = "string list"

text \<open>What a file holds: opaque bytes, or a JSON object (the tag annotation of a video).\<close>

datatype content = Blob string | JsonObj "(string \<times> string) list"

datatype node = Dir | File content

type_synonym fs = "(path \<times> node) list"

text \<open>
  The project configuration document (\<^verbatim>\<open>project_config.json\<close>). \<open>classes\<close> is a Python
  dict from class name to the list of tag indices: an association list in insertion order,
  read with \<open>map_of\<close>, written with \<open>AList.update\<close> (in place when the key exists, appended
  otherwise) and \<open>AList.delete\<close>.
\<close>

record config =
  name :: string
  classes :: "(string \<times> int list) list"
  tags :: "string list"
  settings :: "(string \<times> bool) list"
  timer_defaults :: "int \<times> int"

text \<open>The effects of a handler on persistent storage, in the order they happen.\<close>

datatype event =
    OverviewWrite
  | ConfigWrite path
  | Mkdir path
  | Rename path path
  | Render string string path path
  | TagsRead string string path
  | TagsWrite string string path

text \<open>
  \<open>projects\<close> is the projects overview (name to project path), \<open>configs\<close> holds the
  configuration document found at each project path, \<open>files\<close> is the directory tree and
  \<open>trace\<close> records the effects performed so far.
\<close>

record world =
  projects :: "(string \<times> path) list"
  configs :: "(path \<times> config) list"
  files :: fs
  trace :: "event list"

datatype outcome = Done world | Failed error world

fun world_of :: "outcome \<Rightarrow> world" where
  "world_of (Done w) = w"
| "world_of (Failed e w) = w"

fun and_then :: "outcome \<Rightarrow> (world \<Rightarrow> outcome) \<Rightarrow> outcome" where
  "and_then (Done w) f = f w"
| "and_then (Failed e w) f = Failed e w"

subsection \<open>The helpers of \<^verbatim>\<open>project_utils\<close>\<close>

text \<open>
  Modelled from the spec: \<^verbatim>\<open>project_utils.load_project_overview_config\<close> and
  \<^verbatim>\<open>write_project_overview_config\<close> (ProjectRegistry: the table is loaded whole and
  persisted whole).
\<close>

definition load_project_overview_config :: "world \<Rightarrow> (string \<times> path) list" where
  "load_project_overview_config w = projects w"

definition write_project_overview_config :: "(string \<times> path) list \<Rightarrow> world \<Rightarrow> world" where
  "write_project_overview_config ps w = w\<lparr>projects := ps, trace := trace w @ [OverviewWrite]\<rparr>"

text \<open>
  Modelled from the spec: \<^verbatim>\<open>project_utils.lookup_project_path\<close> (lookupPath fails when no
  entry matches; subscripting the overview dict raises \<open>KeyError\<close>).
\<close>

definition lookup_project_path :: "world \<Rightarrow> string \<Rightarrow> path option" where
  "lookup_project_path w project = map_of (load_project_overview_config w) project"

text \<open>
  Modelled from the spec: \<^verbatim>\<open>project_utils.load_project_config\<close> (ConfigStore.load returns
  "absent", Python's \<open>None\<close>, when the project path holds no configuration) and
  \<^verbatim>\<open>write_project_config\<close> (the full document replaces the stored one).
\<close>

definition load_project_config :: "world \<Rightarrow> path \<Rightarrow> config option" where
  "load_project_config w p = map_of (configs w) p"

definition write_project_config :: "path \<Rightarrow> config \<Rightarrow> world \<Rightarrow> world" where
  "write_project_config p c w =
     w\<lparr>configs := AList.update p c (configs w), trace := trace w @ [ConfigWrite p]\<rparr>"

text \<open>The tag list a class has in the persisted configuration of a project path.\<close>

definition class_tags_at :: "world \<Rightarrow> path \<Rightarrow> string \<Rightarrow> int list option" where
  "class_tags_at w p class_name =
     (case load_project_config w p of
        None \<Rightarrow> None
      | Some c \<Rightarrow> map_of (classes c) class_name)"

subsection \<open>Projects overview\<close>

text \<open>
  \<^verbatim>\<open>remove_project\<close>: \<open>del projects[name]\<close> raises \<open>KeyError\<close> for a name that is not in
  the overview; the write is then never reached.
\<close>

definition remove_project :: "string \<Rightarrow> world \<Rightarrow> outcome" where
  "remove_project project w =
     (let ps = load_project_overview_config w in
      case map_of ps project of
        None \<Rightarrow> Failed KeyError w
      | Some _ \<Rightarrow> Done (write_project_overview_config (AList.delete project ps) w))"

subsection \<open>Tag assignment\<close>

text \<open>
  \<^verbatim>\<open>assign_tag_to_class\<close>: the handler receives the project path itself. \<open>config['classes']\<close>
  on an absent configuration (\<open>None\<close>) raises \<open>TypeError\<close>, an unknown class name raises
  \<open>KeyError\<close>. The tag index is appended and the list sorted in place, so the class keeps
  its position in the dict. \<open>tag_index\<close> is the value after \<open>int(...)\<close>.
\<close>

definition assign_tag_to_class :: "path \<Rightarrow> int \<Rightarrow> string \<Rightarrow> world \<Rightarrow> outcome" where
  "assign_tag_to_class p tag_index class_name w =
     (case load_project_config w p of
        None \<Rightarrow> Failed TypeError w
      | Some c \<Rightarrow>
          (case map_of (classes c) class_name of
             None \<Rightarrow> Failed KeyError w
           | Some class_tags \<Rightarrow>
               Done (write_project_config p
                 (c\<lparr>classes := AList.update class_name (sort (class_tags @ [tag_index])) (classes c)\<rparr>) w)))"

text \<open>
  \<^verbatim>\<open>remove_tag_from_class\<close>: \<open>list.remove\<close> deletes the first occurrence and raises
  \<open>ValueError\<close> when there is none.
\<close>

definition remove_tag_from_class :: "path \<Rightarrow> int \<Rightarrow> string \<Rightarrow> world \<Rightarrow> outcome" where
  "remove_tag_from_class p tag_index class_name w =
     (case load_project_config w p of
        None \<Rightarrow> Failed TypeError w
      | Some c \<Rightarrow>
          (case map_of (classes c) class_name of
             None \<Rightarrow> Failed KeyError w
           | Some class_tags \<Rightarrow>
               if tag_index \<in> set class_tags
               then Done (write_project_config p
                 (c\<lparr>classes := AList.update class_name (remove1 tag_index class_tags) (classes c)\<rparr>) w)
               else Failed ValueError w))"

subsection \<open>Removing a class\<close>

text \<open>
  \<^verbatim>\<open>remove_class\<close>: the project path is looked up by name, the class entry is deleted from
  the configuration and the configuration written. Nothing else is done.
\<close>

definition remove_class :: "string \<Rightarrow> string \<Rightarrow> world \<Rightarrow> outcome" where
  "remove_class project class_name w =
     (case lookup_project_path w project of
        None \<Rightarrow> Failed KeyError w
      | Some p \<Rightarrow>
          (case load_project_config w p of
             None \<Rightarrow> Failed TypeError w
           | Some c \<Rightarrow>
               (case map_of (classes c) class_name of
                  None \<Rightarrow> Failed KeyError w
                | Some _ \<Rightarrow>
                    Done (write_project_config p
                      (c\<lparr>classes := AList.delete class_name (classes c)\<rparr>) w))))"

subsection \<open>The directory tree\<close>

text \<open>
  The tree is the list of its entries below the root, each a full path with its node; the
  root itself always exists and is a directory. An entry is read with \<open>map_of\<close>.
\<close>

definition node_at :: "fs \<Rightarrow> path \<Rightarrow> node option" where
  "node_at t p = (if p = [] then Some Dir else map_of t p)"

text \<open>\<^verbatim>\<open>os.path.exists\<close> and \<^verbatim>\<open>os.path.isdir\<close>.\<close>

definition exists_path :: "fs \<Rightarrow> path \<Rightarrow> bool" where
  "exists_path t p = (node_at t p \<noteq> None)"

definition is_dir :: "fs \<Rightarrow> path \<Rightarrow> bool" where
  "is_dir t p = (node_at t p = Some Dir)"

text \<open>The names directly below a path, each once.\<close>

definition children :: "fs \<Rightarrow> path \<Rightarrow> string list" where
  "children t p = remdups (map (\<lambda>e. last (fst e)) (filter (\<lambda>e. fst e \<noteq> [] \<and> butlast (fst e) = p) t))"

text \<open>\<^verbatim>\<open>os.listdir\<close>: fails on a missing path and on a file.\<close>

definition listdir :: "fs \<Rightarrow> path \<Rightarrow> error + string list" where
  "listdir t p =
     (case node_at t p of
        None \<Rightarrow> Inl FileNotFoundError
      | Some (File _) \<Rightarrow> Inl NotADirectoryError
      | Some Dir \<Rightarrow> Inr (children t p))"

text \<open>\<^verbatim>\<open>os.mkdir\<close>: the path must be new and its parent an existing directory.\<close>

definition mkdir :: "path \<Rightarrow> fs \<Rightarrow> error + fs" where
  "mkdir p t =
     (if exists_path t p then Inl FileExistsError
      else case node_at t (butlast p) of
             None \<Rightarrow> Inl FileNotFoundError
           | Some (File _) \<Rightarrow> Inl NotADirectoryError
           | Some Dir \<Rightarrow> Inr (t @ [(p, Dir)]))"

text \<open>Writing a file (\<open>open(p, 'w')\<close>): creates it or replaces what it held.\<close>

definition write_file :: "path \<Rightarrow> content \<Rightarrow> fs \<Rightarrow> error + fs" where
  "write_file p c t =
     (if is_dir t p then Inl IsADirectoryError
      else case node_at t (butlast p) of
             None \<Rightarrow> Inl FileNotFoundError
           | Some (File _) \<Rightarrow> Inl NotADirectoryError
           | Some Dir \<Rightarrow> Inr (AList.update p (File c) t))"

text \<open>
  \<^verbatim>\<open>os.rename\<close> (POSIX): everything below the source moves with it. An existing
  destination is replaced when it is a file, or an empty directory and the source is a
  directory; renaming a path to itself does nothing.
\<close>

definition rekey :: "path \<Rightarrow> path \<Rightarrow> path \<Rightarrow> path" where
  "rekey src dst k = (if prefix src k then dst @ drop (length src) k else k)"

definition move :: "path \<Rightarrow> path \<Rightarrow> fs \<Rightarrow> fs" where
  "move src dst t = map (\<lambda>e. (rekey src dst (fst e), snd e)) t"

definition rename :: "path \<Rightarrow> path \<Rightarrow> fs \<Rightarrow> error + fs" where
  "rename src dst t =
     (case node_at t src of
        None \<Rightarrow> Inl FileNotFoundError
      | Some s \<Rightarrow>
          if src = dst then Inr t
          else if prefix src dst then Inl InvalidArgument
          else (case node_at t dst of
                  None \<Rightarrow>
                    (case node_at t (butlast dst) of
                       None \<Rightarrow> Inl FileNotFoundError
                     | Some (File _) \<Rightarrow> Inl NotADirectoryError
                     | Some Dir \<Rightarrow> Inr (move src dst t))
                | Some Dir \<Rightarrow>
                    (case s of
                       File _ \<Rightarrow> Inl IsADirectoryError
                     | Dir \<Rightarrow>
                         if children t dst = [] then Inr (move src dst (AList.delete dst t))
                         else Inl DirectoryNotEmpty)
                | Some (File _) \<Rightarrow>
                    (case s of
                       Dir \<Rightarrow> Inl NotADirectoryError
                     | File _ \<Rightarrow> Inr (move src dst (AList.delete dst t)))))"

text \<open>The file-system calls as steps on the state, each recorded in the trace.\<close>

definition os_mkdir :: "path \<Rightarrow> world \<Rightarrow> outcome" where
  "os_mkdir p w =
     (case mkdir p (files w) of
        Inl e \<Rightarrow> Failed e w
      | Inr t \<Rightarrow> Done (w\<lparr>files := t, trace := trace w @ [Mkdir p]\<rparr>))"

definition os_rename :: "path \<Rightarrow> path \<Rightarrow> world \<Rightarrow> outcome" where
  "os_rename src dst w =
     (case rename src dst (files w) of
        Inl e \<Rightarrow> Failed e w
      | Inr t \<Rightarrow> Done (w\<lparr>files := t, trace := trace w @ [Rename src dst]\<rparr>))"

text \<open>
  \<^verbatim>\<open>os.makedirs(p, exist_ok=True)\<close>: the missing ancestors are made first (a
  \<open>FileExistsError\<close> of that recursive call is swallowed), then the directory itself; an
  error of the last \<open>mkdir\<close> is dropped when the path is a directory already.
\<close>

function makedirs :: "path \<Rightarrow> world \<Rightarrow> outcome" where
  "makedirs p w =
     and_then
       (if p \<noteq> [] \<and> \<not> exists_path (files w) (butlast p)
        then (case makedirs (butlast p) w of
                Failed e w' \<Rightarrow> if e = FileExistsError then Done w' else Failed e w'
              | Done w' \<Rightarrow> Done w')
        else Done w)
       (\<lambda>w'. case os_mkdir p w' of
                Failed e w'' \<Rightarrow> if is_dir (files w') p then Done w' else Failed e w''
              | Done w'' \<Rightarrow> Done w'')"
  by pat_completeness auto
termination
  by (relation "measure (\<lambda>(p, w). length p)") auto

declare makedirs.simps [simp del]

subsection \<open>Canonical directories\<close>

text \<open>
  Modelled from the spec: the constant \<^verbatim>\<open>sense.SPLITS\<close> (the fixed set of splits; the flip
  handler names its two members, \<open>train\<close> and \<open>valid\<close>).
\<close>

definition SPLITS :: "string list" where
  "SPLITS = [''train'', ''valid'']"

text \<open>
  Modelled from the spec: \<^verbatim>\<open>tools.directories\<close> (PathNaming: one directory per artifact kind
  and split below the project path, named as the flip handler spells them,
  \<open>videos_<split>\<close> and \<open>tags_<split>\<close>; below it one directory per class).
\<close>

definition get_videos_dir :: "path \<Rightarrow> string \<Rightarrow> path" where
  "get_videos_dir p split = p @ [''videos_'' @ split]"

definition get_frames_dir :: "path \<Rightarrow> string \<Rightarrow> path" where
  "get_frames_dir p split = p @ [''frames_'' @ split]"

definition get_tags_dir :: "path \<Rightarrow> string \<Rightarrow> path" where
  "get_tags_dir p split = p @ [''tags_'' @ split]"

definition get_features_dir :: "path \<Rightarrow> string \<Rightarrow> path" where
  "get_features_dir p split = p @ [''features_'' @ split]"

subsection \<open>Adding a class\<close>

text \<open>
  \<^verbatim>\<open>add_class\<close>: the class key is set to the empty list whether or not it exists, the
  configuration is written, then the videos directory of the class is made in every split
  where it does not exist yet.
\<close>

fun setup_class_dirs :: "path \<Rightarrow> string \<Rightarrow> string list \<Rightarrow> world \<Rightarrow> outcome" where
  "setup_class_dirs p class_name [] w = Done w"
| "setup_class_dirs p class_name (split # splits) w =
     and_then
       (let videos_dir = get_videos_dir p split @ [class_name]
        in if \<not> exists_path (files w) videos_dir then os_mkdir videos_dir w else Done w)
       (setup_class_dirs p class_name splits)"

definition add_class :: "string \<Rightarrow> string \<Rightarrow> world \<Rightarrow> outcome" where
  "add_class project class_name w =
     (case lookup_project_path w project of
        None \<Rightarrow> Failed KeyError w
      | Some p \<Rightarrow>
          (case load_project_config w p of
             None \<Rightarrow> Failed TypeError w
           | Some c \<Rightarrow>
               setup_class_dirs p class_name SPLITS
                 (write_project_config p
                    (c\<lparr>classes := AList.update class_name [] (classes c)\<rparr>) w)))"

subsection \<open>Renaming a class\<close>

text \<open>
  The directories that may hold one sub-directory per class: per split the videos, frames
  and tags directories and, when the features directory exists, every
  \<open><features>/<model>/<tuned layers>\<close> found by listing it. A listing that fails stops the
  handler.
\<close>

fun tuned_dirs :: "fs \<Rightarrow> path list \<Rightarrow> error + path list" where
  "tuned_dirs t [] = Inr []"
| "tuned_dirs t (model_dir # model_dirs) =
     (case listdir t model_dir of
        Inl e \<Rightarrow> Inl e
      | Inr ls \<Rightarrow>
          (case tuned_dirs t model_dirs of
             Inl e \<Rightarrow> Inl e
           | Inr ds \<Rightarrow> Inr (map (\<lambda>tuned_layers. model_dir @ [tuned_layers]) ls @ ds)))"

definition feature_dirs :: "fs \<Rightarrow> path \<Rightarrow> error + path list" where
  "feature_dirs t features_dir =
     (if exists_path t features_dir
      then (case listdir t features_dir of
              Inl e \<Rightarrow> Inl e
            | Inr ms \<Rightarrow> tuned_dirs t (map (\<lambda>model_dir. features_dir @ [model_dir]) ms))
      else Inr [])"

fun data_dirs :: "fs \<Rightarrow> path \<Rightarrow> string list \<Rightarrow> error + path list" where
  "data_dirs t p [] = Inr []"
| "data_dirs t p (split # splits) =
     (case feature_dirs t (get_features_dir p split) of
        Inl e \<Rightarrow> Inl e
      | Inr fds \<Rightarrow>
          (case data_dirs t p splits of
             Inl e \<Rightarrow> Inl e
           | Inr ds \<Rightarrow>
               Inr ([get_videos_dir p split, get_frames_dir p split, get_tags_dir p split]
                    @ fds @ ds)))"

text \<open>
  The base directories of one split, written out: the videos, frames and tags directories, then
  every \<open><features>/<model>/<tuned layers>\<close> that the tree holds, in listing order. The
  enumeration of the handler is compared with it below.
\<close>

definition split_bases :: "fs \<Rightarrow> path \<Rightarrow> string \<Rightarrow> path list" where
  "split_bases t p s =
     [get_videos_dir p s, get_frames_dir p s, get_tags_dir p s] @
     (if exists_path t (get_features_dir p s)
      then concat (map (\<lambda>m. map (\<lambda>l. get_features_dir p s @ [m, l])
                             (children t (get_features_dir p s @ [m])))
                       (children t (get_features_dir p s)))
      else [])"

text \<open>The second loop: the class directory is renamed under every base that has one.\<close>

fun rename_class_dirs :: "string \<Rightarrow> string \<Rightarrow> path list \<Rightarrow> world \<Rightarrow> outcome" where
  "rename_class_dirs class_name new_class_name [] w = Done w"
| "rename_class_dirs class_name new_class_name (base_dir # base_dirs) w =
     and_then
       (let class_dir = base_dir @ [class_name]
        in if exists_path (files w) class_dir
           then os_rename class_dir (base_dir @ [new_class_name]) w
           else Done w)
       (rename_class_dirs class_name new_class_name base_dirs)"

text \<open>
  \<^verbatim>\<open>edit_class\<close>: the tag list is read under the old name (\<open>KeyError\<close> when it is absent),
  the old key deleted, the new key set, the configuration written; then the directories.
\<close>

definition edit_class :: "string \<Rightarrow> string \<Rightarrow> string \<Rightarrow> world \<Rightarrow> outcome" where
  "edit_class project class_name new_class_name w =
     (case lookup_project_path w project of
        None \<Rightarrow> Failed KeyError w
      | Some p \<Rightarrow>
          (case load_project_config w p of
             None \<Rightarrow> Failed TypeError w
           | Some c \<Rightarrow>
               (case map_of (classes c) class_name of
                  None \<Rightarrow> Failed KeyError w
                | Some class_tags \<Rightarrow>
                    (let w' = write_project_config p
                               (c\<lparr>classes := AList.update new_class_name class_tags
                                               (AList.delete class_name (classes c))\<rparr>) w
                     in case data_dirs (files w') p SPLITS of
                          Inl e \<Rightarrow> Failed e w'
                        | Inr ds \<Rightarrow> rename_class_dirs class_name new_class_name ds w'))))"

subsection \<open>Python string functions used by the flip handler\<close>

definition VIDEO_EXT :: string where
  "VIDEO_EXT = ''.mp4''"

text \<open>\<open>s.endswith(ext)\<close> and \<open>sub in s\<close>.\<close>

definition endswith :: "string \<Rightarrow> string \<Rightarrow> bool" where
  "endswith s ext = suffix ext s"

fun contains :: "string \<Rightarrow> string \<Rightarrow> bool" where
  "contains [] sub = (sub = [])"
| "contains (c # cs) sub = (prefix sub (c # cs) \<or> contains cs sub)"

text \<open>
  \<open>s.split(sep)\<close> for a non-empty separator: the pieces between the occurrences of \<open>sep\<close>,
  found from the left without overlap. (Python raises on an empty separator; the handler
  only splits on literals.)
\<close>

function split_py :: "string \<Rightarrow> string \<Rightarrow> string list" where
  "split_py sep [] = [[]]"
| "split_py sep (c # cs) =
     (if sep \<noteq> [] \<and> prefix sep (c # cs)
      then [] # split_py sep (drop (length sep) (c # cs))
      else (case split_py sep cs of
              [] \<Rightarrow> [[c]]
            | piece # pieces \<Rightarrow> (c # piece) # pieces))"
  by pat_completeness auto
termination
  by (relation "measure (\<lambda>(sep, s). length s)") auto

text \<open>\<open>s.replace(old, new)\<close> for a non-empty \<open>old\<close>: every occurrence, from the left.\<close>

function replace_py :: "string \<Rightarrow> string \<Rightarrow> string \<Rightarrow> string" where
  "replace_py old new [] = []"
| "replace_py old new (c # cs) =
     (if old \<noteq> [] \<and> prefix old (c # cs)
      then new @ replace_py old new (drop (length old) (c # cs))
      else c # replace_py old new cs)"
  by pat_completeness auto
termination
  by (relation "measure (\<lambda>(old, new, s). length s)") auto

subsection \<open>Flipping videos\<close>

text \<open>
  The name of the flipped video: a name that contains \<open>_flipped\<close> loses every occurrence
  of it (\<open>''.join(video.split('_flipped'))\<close>); any other name is cut at its first dot
  (\<open>video.split('.')[0]\<close>) and gets \<open>_flipped\<close> and the video extension appended.
\<close>

definition flipped_video_name :: "string \<Rightarrow> error + string" where
  "flipped_video_name video =
     (if contains video ''_flipped''
      then Inr (concat (split_py ''_flipped'' video))
      else (case split_py ''.'' video of
              [] \<Rightarrow> Inl IndexError
            | stem # _ \<Rightarrow> Inr (stem @ ''_flipped'' @ VIDEO_EXT)))"

text \<open>
  The external renderer (\<open>ffmpeg.run\<close>): \<open>hflip\<close> stands for the mirroring of a video's
  content and returns \<open>None\<close> when ffmpeg reports an error. The output file is written
  next to the other videos of the counterpart class.
\<close>

definition ffmpeg_run ::
  "(content \<Rightarrow> content option) \<Rightarrow> string \<Rightarrow> string \<Rightarrow> path \<Rightarrow> path \<Rightarrow> world \<Rightarrow> outcome" where
  "ffmpeg_run hflip split video file_in file_out w =
     (case node_at (files w) file_in of
        Some (File c) \<Rightarrow>
          (case hflip c of
             None \<Rightarrow> Failed FfmpegError w
           | Some c' \<Rightarrow>
               (case write_file file_out c' (files w) of
                  Inl e \<Rightarrow> Failed FfmpegError w
                | Inr t \<Rightarrow>
                    Done (w\<lparr>files := t, trace := trace w @ [Render split video file_in file_out]\<rparr>)))
      | _ \<Rightarrow> Failed FfmpegError w)"

text \<open>
  Copying the tags of one video: when the annotation file of the original exists it is
  read, its \<open>file\<close> entry set to the flipped name, and the result written under the
  counterpart class.
\<close>

definition copy_tags :: "string \<Rightarrow> string \<Rightarrow> string \<Rightarrow> path \<Rightarrow> path \<Rightarrow> world \<Rightarrow> outcome" where
  "copy_tags split video flipped_name original_tags_path counterpart_tags_path w =
     (let original_tags_file = original_tags_path @ [replace_py VIDEO_EXT ''.json'' video];
          flipped_tags_file = counterpart_tags_path @ [replace_py VIDEO_EXT ''.json'' flipped_name]
      in if exists_path (files w) original_tags_file
         then (case node_at (files w) original_tags_file of
                 None \<Rightarrow> Failed FileNotFoundError w
               | Some Dir \<Rightarrow> Failed IsADirectoryError w
               | Some (File (Blob _)) \<Rightarrow>
                   Failed JSONDecodeError
                     (w\<lparr>trace := trace w @ [TagsRead split video original_tags_file]\<rparr>)
               | Some (File (JsonObj original_video_tags)) \<Rightarrow>
                   (let w' = w\<lparr>trace := trace w @ [TagsRead split video original_tags_file]\<rparr>
                    in case write_file flipped_tags_file
                              (JsonObj (AList.update ''file'' flipped_name original_video_tags))
                              (files w') of
                         Inl e \<Rightarrow> Failed e w'
                       | Inr t \<Rightarrow>
                           Done (w'\<lparr>files := t,
                                    trace := trace w' @ [TagsWrite split video flipped_tags_file]\<rparr>)))
         else Done w)"

text \<open>The body of the inner loop, for one video of one split.\<close>

definition flip_video ::
  "(content \<Rightarrow> content option) \<Rightarrow> (string \<times> string list) list \<Rightarrow> path \<Rightarrow> string \<Rightarrow> string
     \<Rightarrow> string \<Rightarrow> string \<Rightarrow> world \<Rightarrow> outcome" where
  "flip_video hflip copy_video_tags p original_class_name counterpart_class_name split video w =
     (let videos_path_in = p @ [''videos_'' @ split, original_class_name];
          videos_path_out = p @ [''videos_'' @ split, counterpart_class_name];
          original_tags_path = p @ [''tags_'' @ split, original_class_name];
          counterpart_tags_path = p @ [''tags_'' @ split, counterpart_class_name]
      in case listdir (files w) videos_path_out of
           Inl e \<Rightarrow> Failed e w
         | Inr ls \<Rightarrow>
             (let output_video_list = filter (\<lambda>op_video. endswith op_video VIDEO_EXT) ls
              in case flipped_video_name video of
                   Inl e \<Rightarrow> Failed e w
                 | Inr flipped_name \<Rightarrow>
                     if flipped_name \<notin> set output_video_list
                     then and_then
                            (ffmpeg_run hflip split video (videos_path_in @ [video])
                               (videos_path_out @ [flipped_name]) w)
                            (\<lambda>w'. case map_of copy_video_tags split of
                                     None \<Rightarrow> Failed KeyError w'
                                   | Some vs \<Rightarrow>
                                       if video \<in> set vs
                                       then copy_tags split video flipped_name original_tags_path
                                              counterpart_tags_path w'
                                       else Done w')
                     else Done w))"

fun flip_video_list ::
  "(content \<Rightarrow> content option) \<Rightarrow> (string \<times> string list) list \<Rightarrow> path \<Rightarrow> string \<Rightarrow> string
     \<Rightarrow> string \<Rightarrow> string list \<Rightarrow> world \<Rightarrow> outcome" where
  "flip_video_list hflip cvt p original counterpart split [] w = Done w"
| "flip_video_list hflip cvt p original counterpart split (video # videos) w =
     and_then (flip_video hflip cvt p original counterpart split video w)
       (flip_video_list hflip cvt p original counterpart split videos)"

text \<open>One split: the two counterpart directories are ensured, then every video is handled.\<close>

definition flip_split ::
  "(content \<Rightarrow> content option) \<Rightarrow> (string \<times> string list) list \<Rightarrow> path \<Rightarrow> string \<Rightarrow> string
     \<Rightarrow> string \<Rightarrow> world \<Rightarrow> outcome" where
  "flip_split hflip cvt p original counterpart split w =
     and_then (makedirs (p @ [''videos_'' @ split, counterpart]) w)
       (\<lambda>w1. and_then (makedirs (p @ [''tags_'' @ split, counterpart]) w1)
          (\<lambda>w2. case listdir (files w2) (p @ [''videos_'' @ split, original]) of
                   Inl e \<Rightarrow> Failed e w2
                 | Inr ls \<Rightarrow>
                     flip_video_list hflip cvt p original counterpart split
                       (filter (\<lambda>video. endswith video VIDEO_EXT) ls) w2))"

fun flip_splits ::
  "(content \<Rightarrow> content option) \<Rightarrow> (string \<times> string list) list \<Rightarrow> path \<Rightarrow> string \<Rightarrow> string
     \<Rightarrow> string list \<Rightarrow> world \<Rightarrow> outcome" where
  "flip_splits hflip cvt p original counterpart [] w = Done w"
| "flip_splits hflip cvt p original counterpart (split # splits) w =
     and_then (flip_split hflip cvt p original counterpart split w)
       (flip_splits hflip cvt p original counterpart splits)"

text \<open>
  The condition \<open>copy_video_tags['train'] or copy_video_tags['valid']\<close>: a missing key raises
  \<open>KeyError\<close>, a non-empty list is true, and the second list is only read when the first
  is empty.
\<close>

definition copy_requested :: "(string \<times> string list) list \<Rightarrow> error + bool" where
  "copy_requested cvt =
     (case map_of cvt ''train'' of
        None \<Rightarrow> Inl KeyError
      | Some vs \<Rightarrow>
          if vs \<noteq> [] then Inr True
          else (case map_of cvt ''valid'' of
                  None \<Rightarrow> Inl KeyError
                | Some vs' \<Rightarrow> Inr (vs' \<noteq> [])))"

text \<open>
  The first step of \<^verbatim>\<open>flip_videos\<close>: a counterpart class that is not a key of \<open>classes\<close> yet
  is added, with the tag list of the original class when copying was asked for and with
  the empty list otherwise, and the configuration is written.
\<close>

definition add_counterpart_class ::
  "(string \<times> string list) list \<Rightarrow> path \<Rightarrow> config \<Rightarrow> string \<Rightarrow> string \<Rightarrow> world \<Rightarrow> outcome" where
  "add_counterpart_class cvt p c original counterpart w =
     (if map_of (classes c) counterpart = None
      then (case copy_requested cvt of
              Inl e \<Rightarrow> Failed e w
            | Inr True \<Rightarrow>
                (case map_of (classes c) original of
                   None \<Rightarrow> Failed KeyError w
                 | Some class_tags \<Rightarrow>
                     Done (write_project_config p
                       (c\<lparr>classes := AList.update counterpart class_tags (classes c)\<rparr>) w))
            | Inr False \<Rightarrow>
                Done (write_project_config p
                  (c\<lparr>classes := AList.update counterpart [] (classes c)\<rparr>) w))
      else Done w)"

definition flip_videos ::
  "(content \<Rightarrow> content option) \<Rightarrow> string \<Rightarrow> string \<Rightarrow> string \<Rightarrow> (string \<times> string list) list
     \<Rightarrow> world \<Rightarrow> outcome" where
  "flip_videos hflip project counterpart_class_name original_class_name copy_video_tags w =
     (case lookup_project_path w project of
        None \<Rightarrow> Failed KeyError w
      | Some p \<Rightarrow>
          (case load_project_config w p of
             None \<Rightarrow> Failed TypeError w
           | Some c \<Rightarrow>
               and_then
                 (add_counterpart_class copy_video_tags p c original_class_name
                    counterpart_class_name w)
                 (flip_splits hflip copy_video_tags p original_class_name
                    counterpart_class_name SPLITS)))"

subsection \<open>A sample project\<close>

text \<open>
  The project of the spec's scenarios: classes \<open>left\<close> (tags 0 and 1) and \<open>right\<close> (no
  tag), one video of \<open>left\<close> in the training split with its annotation, and one extracted
  feature directory.
\<close>

definition sample_path :: path where
  "sample_path = [''data'', ''gestures'']"

definition sample_config :: config where
  "sample_config =
     \<lparr>name = ''gestures'',
      classes = [(''left'', [0, 1]), (''right'', [])],
      tags = [''wave'', ''point'', ''idle''],
      settings = [(''assisted_tagging'', False)],
      timer_defaults = (3, 5)\<rparr>"

definition sample_files :: fs where
  "sample_files =
     [([''data''], Dir),
      ([''data'', ''gestures''], Dir),
      ([''data'', ''gestures'', ''videos_train''], Dir),
      ([''data'', ''gestures'', ''videos_valid''], Dir),
      ([''data'', ''gestures'', ''tags_train''], Dir),
      ([''data'', ''gestures'', ''features_train''], Dir),
      ([''data'', ''gestures'', ''videos_train'', ''left''], Dir),
      ([''data'', ''gestures'', ''videos_train'', ''left'', ''a.mp4''], File (Blob ''video a'')),
      ([''data'', ''gestures'', ''videos_train'', ''right''], Dir),
      ([''data'', ''gestures'', ''videos_valid'', ''left''], Dir),
      ([''data'', ''gestures'', ''videos_valid'', ''right''], Dir),
      ([''data'', ''gestures'', ''tags_train'', ''left''], Dir),
      ([''data'', ''gestures'', ''tags_train'', ''left'', ''a.json''],
         File (JsonObj [(''file'', ''a.mp4''), (''time_annotation'', ''[0, 1, 2]'')])),
      ([''data'', ''gestures'', ''features_train'', ''efficientnet''], Dir),
      ([''data'', ''gestures'', ''features_train'', ''efficientnet'', ''0''], Dir),
      ([''data'', ''gestures'', ''features_train'', ''efficientnet'', ''0'', ''left''], Dir)]"

definition sample_world :: world where
  "sample_world =
     \<lparr>projects = [(''gestures'', sample_path)],
      configs = [(sample_path, sample_config)],
      files = sample_files,
      trace = []\<rparr>"

text \<open>The sample project with a stored tag list that is not in ascending order.\<close>

definition unsorted_world :: world where
  "unsorted_world =
     sample_world\<lparr>configs := [(sample_path, sample_config\<lparr>classes := [(''left'', [2, 1])]\<rparr>)]\<rparr>"

text \<open>
  The sample project after an earlier flip of \<open>left\<close>: the flipped video of \<open>a.mp4\<close> is
  already among the training videos of \<open>left_flipped\<close>.
\<close>

definition rendered_world :: world where
  "rendered_world =
     sample_world\<lparr>files := sample_files @
       [([''data'', ''gestures'', ''videos_train'', ''left_flipped''], Dir),
        ([''data'', ''gestures'', ''videos_train'', ''left_flipped'', ''a_flipped.mp4''],
           File (Blob ''flipped a''))]\<rparr>"

text \<open>The error of an outcome, if it has one.\<close>

fun failure_of :: "outcome \<Rightarrow> error option" where
  "failure_of (Done w) = None"
| "failure_of (Failed e w) = Some e"

subsection \<open>Traces\<close>

text \<open>A trace grows by events that all satisfy a condition.\<close>

definition steps_only :: "(event \<Rightarrow> bool) \<Rightarrow> world \<Rightarrow> world \<Rightarrow> bool" where
  "steps_only Q w w' =
     (prefix (trace w) (trace w') \<and> list_all Q (drop (length (trace w)) (trace w')))"

text \<open>The events that write a configuration.\<close>

fun is_config_write :: "event \<Rightarrow> bool" where
  "is_config_write (ConfigWrite p) = True"
| "is_config_write _ = False"

text \<open>An event about one video of one split: its rendering or the copy of its tags.\<close>

fun is_video_event :: "string \<Rightarrow> string \<Rightarrow> event \<Rightarrow> bool" where
  "is_video_event split video (Render s v a b) = (s = split \<and> v = video)"
| "is_video_event split video (TagsRead s v f) = (s = split \<and> v = video)"
| "is_video_event split video (TagsWrite s v f) = (s = split \<and> v = video)"
| "is_video_event split video _ = False"

text \<open>
  What a step of the flip pipeline may do: it leaves overview and configurations alone,
  removes nothing from the tree, and adds events of one kind only.
\<close>

definition grows :: "(event \<Rightarrow> bool) \<Rightarrow> world \<Rightarrow> world \<Rightarrow> bool" where
  "grows Q w w' =
     (configs w' = configs w \<and> projects w' = projects w \<and>
      (\<forall>q. exists_path (files w) q \<longrightarrow> exists_path (files w') q) \<and> steps_only Q w w')"

text \<open>
  Tag annotations are only copied for a video rendered before: every \<open>TagsRead\<close> and
  \<open>TagsWrite\<close> of a trace is about a video of a split with an earlier \<open>Render\<close> in the trace
  (or among those \<open>seen\<close> before it).
\<close>

fun tags_after_render :: "(string \<times> string) list \<Rightarrow> event list \<Rightarrow> bool" where
  "tags_after_render seen [] = True"
| "tags_after_render seen (Render s v a b # es) = tags_after_render ((s, v) # seen) es"
| "tags_after_render seen (TagsRead s v f # es) = ((s, v) \<in> set seen \<and> tags_after_render seen es)"
| "tags_after_render seen (TagsWrite s v f # es) = ((s, v) \<in> set seen \<and> tags_after_render seen es)"
| "tags_after_render seen (e # es) = tags_after_render seen es"

text \<open>The events a step adds keep that order.\<close>

definition orderly :: "world \<Rightarrow> world \<Rightarrow> bool" where
  "orderly w w' =
     (prefix (trace w) (trace w') \<and> tags_after_render [] (drop (length (trace w)) (trace w')))"

text \<open>The events that make a directory.\<close>

fun is_mkdir :: "event \<Rightarrow> bool" where
  "is_mkdir (Mkdir q) = True"
| "is_mkdir _ = False"

section \<open>Properties\<close>

subsection \<open>The configuration store\<close>

lemma load_write_project_config:
  "load_project_config (write_project_config p c w) q =
     (if q = p then Some c else load_project_config w q)"
  by (simp add: load_project_config_def write_project_config_def update_conv')

lemma class_tags_at_write:
  "class_tags_at (write_project_config p c w) p cn = map_of (classes c) cn"
  by (simp add: class_tags_at_def load_write_project_config)

lemma write_project_config_frame:
  "files (write_project_config p c w) = files w"
  "projects (write_project_config p c w) = projects w"
  "trace (write_project_config p c w) = trace w @ [ConfigWrite p]"
  by (simp_all add: write_project_config_def)

lemma sort_snoc_twice: "sort (sort (ts @ [i]) @ [i]) = sort (ts @ [i, i :: int])"
  by (rule properties_for_sort) simp_all

lemma remove1_sort_snoc: "remove1 i (sort (ts @ [i])) = sort (ts :: int list)"
proof -
  have "sort (ts @ [i]) = insort i (sort ts)"
    by (rule properties_for_sort) (simp_all add: sorted_insort)
  then show ?thesis by simp
qed

subsection \<open>Removing a project from the overview\<close>

text \<open>
  C4, as the code has it: removing a name that is not in the projects overview is not a
  silent no-op. \<open>del projects[name]\<close> raises \<open>KeyError\<close>, the handler fails, and the
  overview is not written, so the table is unchanged.
\<close>

theorem remove_project_absent_raises:
  assumes "lookup_project_path w project = None"
  shows "remove_project project w = Failed KeyError w"
  using assms by (simp add: remove_project_def lookup_project_path_def)

theorem remove_project_absent_raises_witness:
  "remove_project ''demo'' sample_world = Failed KeyError sample_world"
  using remove_project_absent_raises [of sample_world "''demo''"]
  by (simp add: lookup_project_path_def load_project_overview_config_def sample_world_def)

text \<open>The claim as stated (removing an absent name does not fail) is false for the sample.\<close>

theorem remove_project_absent_counterexample:
  "failure_of (remove_project ''ghost'' sample_world) = Some KeyError"
  by (simp add: remove_project_def load_project_overview_config_def sample_world_def)

subsection \<open>Assigning a tag\<close>

text \<open>
  C1, as the code has it: assigning a tag index to a class of the configuration always
  appends it and sorts the list ascending, whether or not the index is in the list
  already. The persisted list is \<open>sort (ts @ [i])\<close>, which holds one more copy of \<open>i\<close>
  than \<open>ts\<close>; assigning the same index a second time adds one more copy again.
\<close>

theorem assign_tag_appends:
  assumes "load_project_config w p = Some c"
    and "map_of (classes c) cn = Some ts"
  shows "\<exists>w1 w2.
           assign_tag_to_class p i cn w = Done w1 \<and>
           class_tags_at w1 p cn = Some (sort (ts @ [i])) \<and>
           count_list (sort (ts @ [i])) i = count_list ts i + 1 \<and>
           assign_tag_to_class p i cn w1 = Done w2 \<and>
           class_tags_at w2 p cn = Some (sort (ts @ [i, i]))"
  using assms
  by (simp add: assign_tag_to_class_def load_write_project_config class_tags_at_write update_conv'
      sort_snoc_twice flip: count_mset)

theorem assign_tag_appends_witness:
  "\<exists>w1 w2.
     assign_tag_to_class sample_path 1 ''left'' sample_world = Done w1 \<and>
     class_tags_at w1 sample_path ''left'' = Some [0, 1, 1] \<and>
     assign_tag_to_class sample_path 1 ''left'' w1 = Done w2 \<and>
     class_tags_at w2 sample_path ''left'' = Some [0, 1, 1, 1]"
  using assign_tag_appends [of sample_world sample_path sample_config "''left''" "[0, 1]" 1]
  by (simp add: load_project_config_def sample_world_def sample_config_def)

text \<open>
  The claim as stated fails: tag 1 is assigned to \<open>left\<close> already, and assigning it again
  changes the persisted list from \<open>[0, 1]\<close> to \<open>[0, 1, 1]\<close>.
\<close>

theorem assign_tag_idempotent_counterexample:
  "class_tags_at sample_world sample_path ''left'' = Some [0, 1] \<and>
   failure_of (assign_tag_to_class sample_path 1 ''left'' sample_world) = None \<and>
   class_tags_at (world_of (assign_tag_to_class sample_path 1 ''left'' sample_world))
     sample_path ''left'' = Some [0, 1, 1]"
  by (simp add: assign_tag_to_class_def load_project_config_def class_tags_at_def
      write_project_config_def sample_world_def sample_config_def sample_path_def)

lemma update_same_value: "map_of al k = Some v \<Longrightarrow> AList.update k v al = al"
  by (induction al) auto

text \<open>Facts about the sample project.\<close>

lemma sample_load: "load_project_config sample_world sample_path = Some sample_config"
  by (simp add: load_project_config_def sample_world_def)

lemma sample_lookup: "lookup_project_path sample_world ''gestures'' = Some sample_path"
  by (simp add: lookup_project_path_def load_project_overview_config_def sample_world_def)

lemma sample_classes:
  "map_of (classes sample_config) ''left'' = Some [0, 1]"
  "map_of (classes sample_config) ''right'' = Some []"
  "map_of (classes sample_config) ''up'' = None"
  by (simp_all add: sample_config_def)

subsection \<open>Removing a tag\<close>

lemma sort_id_iff: "sort ts = ts \<longleftrightarrow> sorted (ts :: int list)"
proof
  assume "sort ts = ts"
  with sorted_sort [of ts] show "sorted ts" by simp
next
  assume "sorted ts"
  then show "sort ts = ts" by (rule sorted_sort_id)
qed

text \<open>
  C5, as the code has it: removing a tag index from a class fails when the class name is
  not in the configuration (\<open>KeyError\<close>) and when the index is not in the tag list of the
  class (\<open>ValueError\<close>), in both cases without writing anything. When the index is in the
  list, one occurrence of it is removed and the configuration is written. Removing an
  index right after assigning it persists the tag list of before the assignment in
  ascending order, because the assignment sorts the list: that is the list as it was, and
  the whole configuration as it was, exactly when the list was ascending to begin with.
\<close>

theorem unassign_tag:
  assumes "load_project_config w p = Some c"
  shows "(map_of (classes c) cn = None \<longrightarrow> remove_tag_from_class p i cn w = Failed KeyError w) \<and>
         (\<forall>ts. map_of (classes c) cn = Some ts \<longrightarrow>
            (i \<notin> set ts \<longrightarrow> remove_tag_from_class p i cn w = Failed ValueError w) \<and>
            (i \<in> set ts \<longrightarrow>
               (\<exists>w'. remove_tag_from_class p i cn w = Done w' \<and>
                     class_tags_at w' p cn = Some (remove1 i ts) \<and>
                     mset (remove1 i ts) = mset ts - {#i#} \<and>
                     trace w' = trace w @ [ConfigWrite p])) \<and>
            (\<exists>w1 w2. assign_tag_to_class p i cn w = Done w1 \<and>
                     remove_tag_from_class p i cn w1 = Done w2 \<and>
                     class_tags_at w2 p cn = Some (sort ts) \<and>
                     (class_tags_at w2 p cn = Some ts \<longleftrightarrow> sorted ts) \<and>
                     (sorted ts \<longrightarrow> load_project_config w2 p = Some c)))"
  using assms
  by (auto simp: remove_tag_from_class_def assign_tag_to_class_def load_write_project_config
      class_tags_at_write update_conv' write_project_config_frame remove1_sort_snoc
      sorted_sort_id update_same_value sort_id_iff)

theorem unassign_tag_witness:
  "remove_tag_from_class sample_path 5 ''up'' sample_world = Failed KeyError sample_world \<and>
   remove_tag_from_class sample_path 5 ''right'' sample_world = Failed ValueError sample_world \<and>
   (\<exists>w'. remove_tag_from_class sample_path 0 ''left'' sample_world = Done w' \<and>
         class_tags_at w' sample_path ''left'' = Some [1]) \<and>
   (\<exists>w1 w2. assign_tag_to_class sample_path 2 ''left'' sample_world = Done w1 \<and>
            remove_tag_from_class sample_path 2 ''left'' w1 = Done w2 \<and>
            class_tags_at w2 sample_path ''left'' = Some [0, 1] \<and>
            load_project_config w2 sample_path = Some sample_config)"
  using unassign_tag [OF sample_load, of "''up''" 5]
    unassign_tag [OF sample_load, of "''right''" 5]
    unassign_tag [OF sample_load, of "''left''" 0]
    unassign_tag [OF sample_load, of "''left''" 2]
  by (auto simp: sample_classes)

text \<open>
  The claim as stated fails on a stored tag list that is not ascending: with the tags
  \<open>[2, 1]\<close> of class \<open>left\<close>, assigning index 3 and removing it again persists \<open>[1, 2]\<close>.
\<close>

theorem unassign_tag_round_trip_counterexample:
  "class_tags_at unsorted_world sample_path ''left'' = Some [2, 1] \<and>
   failure_of (and_then (assign_tag_to_class sample_path 3 ''left'' unsorted_world)
                 (remove_tag_from_class sample_path 3 ''left'')) = None \<and>
   class_tags_at
     (world_of (and_then (assign_tag_to_class sample_path 3 ''left'' unsorted_world)
                  (remove_tag_from_class sample_path 3 ''left'')))
     sample_path ''left'' = Some [1, 2]"
  by code_simp

subsection \<open>Removing a class\<close>

text \<open>
  C8: removing a class never changes the directory tree, whatever the outcome. For a
  registered project whose configuration has the class, the handler succeeds, the class
  entry is gone from the persisted configuration, every other class keeps its tag list,
  and the only effect on storage is the one write of the configuration.
\<close>

theorem remove_class_config_only:
  "files (world_of (remove_class project cn w)) = files w \<and>
   (\<forall>p c ts. lookup_project_path w project = Some p \<and> load_project_config w p = Some c \<and>
        map_of (classes c) cn = Some ts \<longrightarrow>
      (\<exists>w'. remove_class project cn w = Done w' \<and>
            load_project_config w' p = Some (c\<lparr>classes := AList.delete cn (classes c)\<rparr>) \<and>
            class_tags_at w' p cn = None \<and>
            (\<forall>cn'. cn' \<noteq> cn \<longrightarrow> class_tags_at w' p cn' = class_tags_at w p cn') \<and>
            files w' = files w \<and>
            projects w' = projects w \<and>
            trace w' = trace w @ [ConfigWrite p]))"
  by (auto simp: remove_class_def load_write_project_config class_tags_at_def
      write_project_config_frame delete_conv' split: option.splits)

theorem remove_class_config_only_witness:
  "\<exists>w'. remove_class ''gestures'' ''left'' sample_world = Done w' \<and>
        class_tags_at w' sample_path ''left'' = None \<and>
        class_tags_at w' sample_path ''right'' = Some [] \<and>
        files w' = files sample_world \<and>
        trace w' = trace sample_world @ [ConfigWrite sample_path]"
proof -
  have r: "class_tags_at sample_world sample_path ''right'' = Some []"
    by (simp add: class_tags_at_def sample_load sample_classes)
  from remove_class_config_only [of "''gestures''" "''left''" sample_world]
  obtain w' where "remove_class ''gestures'' ''left'' sample_world = Done w'"
    "class_tags_at w' sample_path ''left'' = None"
    "\<forall>cn'. cn' \<noteq> ''left'' \<longrightarrow> class_tags_at w' sample_path cn' = class_tags_at sample_world sample_path cn'"
    "files w' = files sample_world" "trace w' = trace sample_world @ [ConfigWrite sample_path]"
    using sample_lookup sample_load sample_classes(1) by blast
  then show ?thesis using r by simp
qed

subsection \<open>Adding a class\<close>

text \<open>Making a directory leaves every other path as it was.\<close>

lemma node_at_mkdir:
  assumes "mkdir q t = Inr t'"
  shows "node_at t' r = (if r = q then Some Dir else node_at t r)"
proof -
  from assms have t': "t' = t @ [(q, Dir)]" and nq: "node_at t q = None"
    by (auto simp: mkdir_def exists_path_def split: if_splits option.splits node.splits)
  from nq have "q \<noteq> []" and "map_of t q = None"
    by (auto simp: node_at_def split: if_splits)
  then show ?thesis
    by (auto simp: t' node_at_def map_add_def split: option.splits)
qed

lemma os_mkdir_Done:
  assumes "os_mkdir q w = Done w'"
  shows "configs w' = configs w" "projects w' = projects w"
    "trace w' = trace w @ [Mkdir q]"
    "node_at (files w') r = (if r = q then Some Dir else node_at (files w) r)"
  using assms node_at_mkdir [of q "files w"]
  by (auto simp: os_mkdir_def split: sum.splits)

lemma os_mkdir_Failed: "os_mkdir q w = Failed e w' \<Longrightarrow> w' = w"
  by (auto simp: os_mkdir_def split: sum.splits)

lemma os_mkdir_succeeds:
  "\<not> exists_path (files w) q \<Longrightarrow> is_dir (files w) (butlast q) \<Longrightarrow> \<exists>w'. os_mkdir q w = Done w'"
  by (auto simp: os_mkdir_def mkdir_def is_dir_def split: sum.splits)

lemma setup_class_dirs_props:
  "configs (world_of (setup_class_dirs p cn splits w)) = configs w \<and>
   projects (world_of (setup_class_dirs p cn splits w)) = projects w \<and>
   (\<exists>ds. trace (world_of (setup_class_dirs p cn splits w)) = trace w @ map Mkdir ds) \<and>
   (\<forall>q. exists_path (files w) q \<longrightarrow>
        exists_path (files (world_of (setup_class_dirs p cn splits w))) q) \<and>
   (failure_of (setup_class_dirs p cn splits w) = None \<longrightarrow>
      (\<forall>s \<in> set splits.
         exists_path (files (world_of (setup_class_dirs p cn splits w))) (get_videos_dir p s @ [cn])))"
proof (induction splits arbitrary: w)
  case Nil
  show ?case by simp
next
  case (Cons s splits)
  let ?d = "get_videos_dir p s @ [cn]"
  show ?case
  proof (cases "exists_path (files w) ?d")
    case True
    with Cons.IH [of w] show ?thesis by simp
  next
    case False
    show ?thesis
    proof (cases "os_mkdir ?d w")
      case (Failed e w')
      with False os_mkdir_Failed [OF Failed] show ?thesis
        by (simp add: exI [of _ "[]"])
    next
      case (Done w')
      note m = os_mkdir_Done [OF Done]
      have ex: "exists_path (files w) q \<Longrightarrow> exists_path (files w') q" for q
        by (simp add: exists_path_def m(4))
      have exd: "exists_path (files w') ?d"
        by (simp add: exists_path_def m(4))
      from Cons.IH [of w'] obtain ds where
        tr: "trace (world_of (setup_class_dirs p cn splits w')) = trace w' @ map Mkdir ds"
        by blast
      have "trace (world_of (setup_class_dirs p cn splits w')) = trace w @ map Mkdir (?d # ds)"
        by (simp add: tr m(3))
      then have "\<exists>ds. trace (world_of (setup_class_dirs p cn splits w')) = trace w @ map Mkdir ds"
        by blast
      with Cons.IH [of w'] False Done m(1,2) ex exd show ?thesis
        by simp
    qed
  qed
qed

lemma setup_class_dirs_existing:
  "\<forall>s \<in> set splits. exists_path (files w) (get_videos_dir p s @ [cn]) \<Longrightarrow>
   setup_class_dirs p cn splits w = Done w"
  by (induction splits) simp_all

lemma setup_class_dirs_succeeds:
  "\<forall>s \<in> set splits. is_dir (files w) (get_videos_dir p s) \<Longrightarrow>
   failure_of (setup_class_dirs p cn splits w) = None"
proof (induction splits arbitrary: w)
  case Nil
  show ?case by simp
next
  case (Cons s splits)
  let ?d = "get_videos_dir p s @ [cn]"
  show ?case
  proof (cases "exists_path (files w) ?d")
    case True
    with Cons show ?thesis by simp
  next
    case False
    from Cons.prems have "is_dir (files w) (butlast ?d)" by simp
    with False obtain w' where Done: "os_mkdir ?d w = Done w'"
      using os_mkdir_succeeds by blast
    note m = os_mkdir_Done [OF Done]
    have "\<forall>s \<in> set splits. is_dir (files w') (get_videos_dir p s)"
      using Cons.prems by (auto simp: is_dir_def m(4))
    with Cons.IH [of w'] False Done show ?thesis by simp
  qed
qed

text \<open>
  C2, as the code has it: adding a class never fails because the name is taken. For a
  registered project with a configuration, the class key is set to the empty tag list
  whether or not it is a key already (an existing class loses its tags, the other classes
  keep theirs), the configuration is written first, and only directories are made after
  it. When the handler succeeds the videos directory of the class exists in every split;
  it succeeds when the videos directory of every split is a directory, and makes nothing
  when the class directories exist already.
\<close>

theorem add_class_overwrites:
  assumes "lookup_project_path w project = Some p"
    and "load_project_config w p = Some c"
  shows "class_tags_at (world_of (add_class project cn w)) p cn = Some [] \<and>
         (\<forall>cn'. cn' \<noteq> cn \<longrightarrow>
            class_tags_at (world_of (add_class project cn w)) p cn' = map_of (classes c) cn') \<and>
         (\<exists>ds. trace (world_of (add_class project cn w)) = trace w @ ConfigWrite p # map Mkdir ds) \<and>
         (failure_of (add_class project cn w) = None \<longrightarrow>
            (\<forall>s \<in> set SPLITS.
               exists_path (files (world_of (add_class project cn w))) (get_videos_dir p s @ [cn]))) \<and>
         ((\<forall>s \<in> set SPLITS. is_dir (files w) (get_videos_dir p s)) \<longrightarrow>
            failure_of (add_class project cn w) = None) \<and>
         ((\<forall>s \<in> set SPLITS. exists_path (files w) (get_videos_dir p s @ [cn])) \<longrightarrow>
            add_class project cn w =
              Done (write_project_config p (c\<lparr>classes := AList.update cn [] (classes c)\<rparr>) w))"
proof -
  let ?w1 = "write_project_config p (c\<lparr>classes := AList.update cn [] (classes c)\<rparr>) w"
  have eq: "add_class project cn w = setup_class_dirs p cn SPLITS ?w1"
    using assms by (simp add: add_class_def)
  note sp = setup_class_dirs_props [of p cn SPLITS ?w1]
  have cfg: "class_tags_at (world_of (add_class project cn w)) p cn' =
      map_of (AList.update cn [] (classes c)) cn'" for cn'
    using sp by (simp add: eq class_tags_at_def load_project_config_def
        write_project_config_def update_conv')
  have c1: "class_tags_at (world_of (add_class project cn w)) p cn = Some []"
    by (simp add: cfg update_conv')
  have c2: "\<forall>cn'. cn' \<noteq> cn \<longrightarrow>
      class_tags_at (world_of (add_class project cn w)) p cn' = map_of (classes c) cn'"
    by (simp add: cfg update_conv')
  from sp obtain ds where
    "trace (world_of (add_class project cn w)) = trace w @ ConfigWrite p # map Mkdir ds"
    by (auto simp: eq write_project_config_frame)
  then have c3: "\<exists>ds. trace (world_of (add_class project cn w)) =
      trace w @ ConfigWrite p # map Mkdir ds" ..
  have c4: "failure_of (add_class project cn w) = None \<longrightarrow>
      (\<forall>s \<in> set SPLITS.
         exists_path (files (world_of (add_class project cn w))) (get_videos_dir p s @ [cn]))"
    using sp by (simp add: eq)
  have c5: "(\<forall>s \<in> set SPLITS. is_dir (files w) (get_videos_dir p s)) \<longrightarrow>
      failure_of (add_class project cn w) = None"
    using setup_class_dirs_succeeds [of SPLITS ?w1 p cn]
    by (simp add: eq write_project_config_frame)
  have c6: "(\<forall>s \<in> set SPLITS. exists_path (files w) (get_videos_dir p s @ [cn])) \<longrightarrow>
      add_class project cn w = Done ?w1"
    using setup_class_dirs_existing [of SPLITS ?w1 p cn]
    by (simp add: eq write_project_config_frame)
  from c1 c2 c3 c4 c5 c6 show ?thesis by blast
qed

theorem add_class_overwrites_witness:
  "class_tags_at (world_of (add_class ''gestures'' ''left'' sample_world)) sample_path ''left''
     = Some [] \<and>
   class_tags_at (world_of (add_class ''gestures'' ''left'' sample_world)) sample_path ''right''
     = Some [] \<and>
   failure_of (add_class ''gestures'' ''left'' sample_world) = None \<and>
   exists_path (files (world_of (add_class ''gestures'' ''left'' sample_world)))
     (get_videos_dir sample_path ''valid'' @ [''left''])"
proof -
  have d: "\<forall>s \<in> set SPLITS. is_dir (files sample_world) (get_videos_dir sample_path s)"
    by (simp add: SPLITS_def is_dir_def node_at_def get_videos_dir_def sample_world_def
        sample_files_def sample_path_def)
  have v: "''valid'' \<in> set SPLITS" by (simp add: SPLITS_def)
  from add_class_overwrites [OF sample_lookup sample_load, of "''left''"] d v
  show ?thesis by (auto simp: sample_classes)
qed

text \<open>
  The claim as stated fails: \<open>left\<close> is a class of the sample with tags \<open>[0, 1]\<close>; adding
  \<open>left\<close> again succeeds and leaves it with no tags.
\<close>

theorem add_class_duplicate_counterexample:
  "class_tags_at sample_world sample_path ''left'' = Some [0, 1] \<and>
   failure_of (add_class ''gestures'' ''left'' sample_world) = None \<and>
   class_tags_at (world_of (add_class ''gestures'' ''left'' sample_world)) sample_path ''left''
     = Some []"
  by (simp add: add_class_def lookup_project_path_def load_project_overview_config_def
      load_project_config_def class_tags_at_def write_project_config_def SPLITS_def
      get_videos_dir_def exists_path_def node_at_def
      sample_world_def sample_config_def sample_path_def sample_files_def)

subsection \<open>Renaming a class: the configuration\<close>

lemma os_rename_Done:
  assumes "os_rename src dst w = Done w'"
  shows "configs w' = configs w" "projects w' = projects w"
    "trace w' = trace w @ [Rename src dst]"
    "rename src dst (files w) = Inr (files w')"
  using assms by (auto simp: os_rename_def split: sum.splits)

lemma os_rename_Failed: "os_rename src dst w = Failed e w' \<Longrightarrow> w' = w"
  by (auto simp: os_rename_def split: sum.splits)

text \<open>The renaming loop writes no configuration: it only renames.\<close>

lemma rename_class_dirs_props:
  "configs (world_of (rename_class_dirs old new ds w)) = configs w \<and>
   projects (world_of (rename_class_dirs old new ds w)) = projects w \<and>
   (\<exists>rs. trace (world_of (rename_class_dirs old new ds w)) =
           trace w @ map (\<lambda>b. Rename (b @ [old]) (b @ [new])) rs \<and> set rs \<subseteq> set ds)"
proof (induction ds arbitrary: w)
  case Nil
  show ?case by simp
next
  case (Cons b ds)
  show ?case
  proof (cases "exists_path (files w) (b @ [old])")
    case False
    from Cons.IH [of w] obtain rs where
      "trace (world_of (rename_class_dirs old new ds w)) =
         trace w @ map (\<lambda>b. Rename (b @ [old]) (b @ [new])) rs" "set rs \<subseteq> set (b # ds)"
      by auto
    then have "\<exists>rs. trace (world_of (rename_class_dirs old new ds w)) =
         trace w @ map (\<lambda>b. Rename (b @ [old]) (b @ [new])) rs \<and> set rs \<subseteq> set (b # ds)"
      by blast
    with False Cons.IH [of w] show ?thesis by simp
  next
    case True
    show ?thesis
    proof (cases "os_rename (b @ [old]) (b @ [new]) w")
      case (Failed e w')
      have "trace w = trace w @ map (\<lambda>b. Rename (b @ [old]) (b @ [new])) [] \<and>
            set [] \<subseteq> set (b # ds)" by simp
      then have "\<exists>rs. trace w = trace w @ map (\<lambda>b. Rename (b @ [old]) (b @ [new])) rs \<and>
            set rs \<subseteq> set (b # ds)" by blast
      with True Failed os_rename_Failed [OF Failed] show ?thesis by simp
    next
      case (Done w')
      note r = os_rename_Done [OF Done]
      from Cons.IH [of w'] obtain rs where
        tr: "trace (world_of (rename_class_dirs old new ds w')) =
           trace w' @ map (\<lambda>b. Rename (b @ [old]) (b @ [new])) rs" and sub: "set rs \<subseteq> set ds"
        by auto
      have "trace (world_of (rename_class_dirs old new ds w')) =
           trace w @ map (\<lambda>b. Rename (b @ [old]) (b @ [new])) (b # rs) \<and>
           set (b # rs) \<subseteq> set (b # ds)"
        using tr sub by (auto simp: r(3))
      then have "\<exists>rs. trace (world_of (rename_class_dirs old new ds w')) =
           trace w @ map (\<lambda>b. Rename (b @ [old]) (b @ [new])) rs \<and> set rs \<subseteq> set (b # ds)"
        by blast
      with True Done Cons.IH [of w'] r(1,2) show ?thesis by simp
    qed
  qed
qed

subsection \<open>Renaming a class: the directories\<close>

text \<open>What the listing of the base directories returns when no listing fails.\<close>

lemma listdir_Inr: "listdir t q = Inr ls \<Longrightarrow> ls = children t q"
  by (auto simp: listdir_def split: option.splits node.splits)

lemma tuned_dirs_Inr:
  "tuned_dirs t mds = Inr ds \<Longrightarrow>
   ds = concat (map (\<lambda>md. map (\<lambda>l. md @ [l]) (children t md)) mds)"
  by (induction mds arbitrary: ds) (auto split: sum.splits dest: listdir_Inr)

lemma feature_dirs_Inr:
  assumes "feature_dirs t fd = Inr ds"
  shows "ds = (if exists_path t fd
               then concat (map (\<lambda>m. map (\<lambda>l. fd @ [m, l]) (children t (fd @ [m]))) (children t fd))
               else [])"
proof (cases "exists_path t fd")
  case False
  with assms show ?thesis by (simp add: feature_dirs_def)
next
  case True
  with assms obtain ms where ms: "listdir t fd = Inr ms"
    and td: "tuned_dirs t (map (\<lambda>m. fd @ [m]) ms) = Inr ds"
    by (auto simp: feature_dirs_def split: sum.splits)
  from tuned_dirs_Inr [OF td] listdir_Inr [OF ms] True show ?thesis
    by (simp add: comp_def)
qed

lemma data_dirs_Inr:
  "data_dirs t p splits = Inr ds \<Longrightarrow>
   ds = concat (map (\<lambda>s.
          [get_videos_dir p s, get_frames_dir p s, get_tags_dir p s] @
          (if exists_path t (get_features_dir p s)
           then concat (map (\<lambda>m. map (\<lambda>l. get_features_dir p s @ [m, l])
                                  (children t (get_features_dir p s @ [m])))
                            (children t (get_features_dir p s)))
           else [])) splits)"
proof (induction splits arbitrary: ds)
  case Nil
  then show ?case by simp
next
  case (Cons s splits)
  from Cons.prems obtain fds ds' where f: "feature_dirs t (get_features_dir p s) = Inr fds"
    and d: "data_dirs t p splits = Inr ds'"
    and ds: "ds = [get_videos_dir p s, get_frames_dir p s, get_tags_dir p s] @ fds @ ds'"
    by (auto split: sum.splits)
  from feature_dirs_Inr [OF f] Cons.IH [OF d] ds show ?case by simp
qed

text \<open>The base directories are pairwise different, and none lies below another.\<close>

lemma distinct_concat_map:
  assumes "distinct xs"
    and "\<And>x. x \<in> set xs \<Longrightarrow> distinct (f x)"
    and "\<And>x y. x \<in> set xs \<Longrightarrow> y \<in> set xs \<Longrightarrow> x \<noteq> y \<Longrightarrow> set (f x) \<inter> set (f y) = {}"
  shows "distinct (concat (map f xs))"
  using assms by (induction xs) auto

lemma distinct_children: "distinct (children t q)"
  by (simp add: children_def)

lemma split_bases_shape:
  assumes "b \<in> set (split_bases t p s)"
  shows "b = get_videos_dir p s \<or> b = get_frames_dir p s \<or> b = get_tags_dir p s \<or>
         (\<exists>m l. b = get_features_dir p s @ [m, l])"
proof (cases "exists_path t (get_features_dir p s)")
  case False
  with assms show ?thesis by (auto simp: split_bases_def)
next
  case True
  with assms show ?thesis by (auto simp: split_bases_def)
qed

lemma kind_names:
  "''videos_'' @ s \<noteq> ''frames_'' @ s'" "''videos_'' @ s \<noteq> ''tags_'' @ s'"
  "''videos_'' @ s \<noteq> ''features_'' @ s'" "''frames_'' @ s \<noteq> ''tags_'' @ s'"
  "''frames_'' @ s \<noteq> ''features_'' @ s'" "''tags_'' @ s \<noteq> ''features_'' @ s'"
  "''frames_'' @ s \<noteq> ''videos_'' @ s'" "''tags_'' @ s \<noteq> ''videos_'' @ s'"
  "''features_'' @ s \<noteq> ''videos_'' @ s'" "''tags_'' @ s \<noteq> ''frames_'' @ s'"
  "''features_'' @ s \<noteq> ''frames_'' @ s'" "''features_'' @ s \<noteq> ''tags_'' @ s'"
  by simp_all

lemma split_bases_prefix:
  assumes "a \<in> set (split_bases t p s)" and "b \<in> set (split_bases t p s')" and "prefix a b"
  shows "a = b \<and> s = s'"
proof -
  note defs = get_videos_dir_def get_frames_dir_def get_tags_dir_def get_features_dir_def
  from split_bases_shape [OF assms(1)] consider
      "a = p @ [''videos_'' @ s]" | "a = p @ [''frames_'' @ s]" | "a = p @ [''tags_'' @ s]"
    | m l where "a = p @ [''features_'' @ s, m, l]"
    unfolding defs by auto
  then show ?thesis
  proof cases
    case 1
    from split_bases_shape [OF assms(2)] assms(3) show ?thesis
      unfolding defs 1 by (elim disjE exE) (simp_all add: kind_names)
  next
    case 2
    from split_bases_shape [OF assms(2)] assms(3) show ?thesis
      unfolding defs 2 by (elim disjE exE) (simp_all add: kind_names)
  next
    case 3
    from split_bases_shape [OF assms(2)] assms(3) show ?thesis
      unfolding defs 3 by (elim disjE exE) (simp_all add: kind_names)
  next
    case 4
    from split_bases_shape [OF assms(2)] assms(3) show ?thesis
      unfolding defs 4 by (elim disjE exE) (simp_all add: kind_names)
  qed
qed

lemma distinct_split_bases: "distinct (split_bases t p s)"
proof -
  note defs = get_videos_dir_def get_frames_dir_def get_tags_dir_def get_features_dir_def
  let ?fd = "get_features_dir p s"
  let ?F = "concat (map (\<lambda>m. map (\<lambda>l. ?fd @ [m, l]) (children t (?fd @ [m]))) (children t ?fd))"
  have F: "distinct ?F"
    by (rule distinct_concat_map) (auto simp: distinct_children distinct_map inj_on_def)
  have three: "distinct [get_videos_dir p s, get_frames_dir p s, get_tags_dir p s]"
    by (simp add: defs kind_names)
  have len: "length b = length p + 3" if "b \<in> set ?F" for b
    using that by (auto simp: defs)
  have "get_videos_dir p s \<notin> set ?F" "get_frames_dir p s \<notin> set ?F" "get_tags_dir p s \<notin> set ?F"
    using len by (force simp: defs)+
  with F three show ?thesis
    by (simp add: split_bases_def)
qed

lemma distinct_all_bases:
  assumes "distinct splits"
  shows "distinct (concat (map (split_bases t p) splits))"
proof (rule distinct_concat_map [OF assms])
  show "distinct (split_bases t p s)" for s :: string by (rule distinct_split_bases)
next
  fix s s' :: string assume "s \<noteq> s'"
  show "set (split_bases t p s) \<inter> set (split_bases t p s') = {}"
  proof (rule ccontr)
    assume "set (split_bases t p s) \<inter> set (split_bases t p s') \<noteq> {}"
    then obtain a where "a \<in> set (split_bases t p s)" "a \<in> set (split_bases t p s')"
      by blast
    from split_bases_prefix [OF this] \<open>s \<noteq> s'\<close> show False by simp
  qed
qed

lemma all_bases_prefix:
  assumes "a \<in> set (concat (map (split_bases t p) splits))"
    and "b \<in> set (concat (map (split_bases t p) splits))" and "prefix a b"
  shows "a = b"
proof -
  from assms(1) obtain s where "s \<in> set splits" "a \<in> set (split_bases t p s)" by auto
  moreover from assms(2) obtain s' where "s' \<in> set splits" "b \<in> set (split_bases t p s')" by auto
  ultimately show ?thesis using split_bases_prefix assms(3) by blast
qed

lemma data_dirs_bases:
  "data_dirs t p splits = Inr ds \<Longrightarrow> ds = concat (map (split_bases t p) splits)"
  by (drule data_dirs_Inr) (simp add: split_bases_def [abs_def])

text \<open>What a successful \<open>rename\<close> does to the existence of paths.\<close>

lemma exists_path_iff: "exists_path t q \<longleftrightarrow> q = [] \<or> q \<in> fst ` set t"
  unfolding exists_path_def node_at_def using map_of_eq_None_iff [of t q] by auto

lemma keys_move: "fst ` set (move src dst t) = rekey src dst ` fst ` set t"
  by (induction t) (simp_all add: move_def)

lemma rekey_simps:
  "\<not> prefix src q \<Longrightarrow> rekey src dst q = q"
  "prefix src k \<Longrightarrow> prefix dst (rekey src dst k)"
  "rekey src dst src = dst"
  by (simp_all add: rekey_def)

lemma keys_delete: "fst ` set (AList.delete k t) = fst ` set t - {k}"
  by (induction t) auto

lemma rename_Inr:
  assumes "rename src dst t = Inr t'"
  shows "exists_path t src \<and>
         (src = dst \<and> t' = t \<or>
          src \<noteq> dst \<and> (t' = move src dst t \<or> t' = move src dst (AList.delete dst t)))"
  using assms
  by (auto simp: rename_def exists_path_def split: option.splits node.splits if_splits)

lemma exists_rename_other:
  assumes "rename src dst t = Inr t'" and "\<not> prefix src q" and "\<not> prefix dst q"
  shows "exists_path t' q = exists_path t q"
proof -
  have "q \<noteq> dst" using assms(3) by auto
  have img: "q \<in> rekey src dst ` K \<longleftrightarrow> q \<in> K" for K
  proof
    assume "q \<in> rekey src dst ` K"
    then obtain k where k: "k \<in> K" "q = rekey src dst k" by blast
    show "q \<in> K"
    proof (cases "prefix src k")
      case True
      with k(2) assms(3) show ?thesis by (simp add: rekey_simps(2))
    next
      case False
      with k show ?thesis by (simp add: rekey_simps(1))
    qed
  next
    assume "q \<in> K"
    then show "q \<in> rekey src dst ` K"
      using rekey_simps(1) [OF assms(2), of dst] by (metis imageI)
  qed
  from rename_Inr [OF assms(1)] show ?thesis
  proof (elim conjE disjE)
    assume "t' = t"
    then show ?thesis by simp
  next
    assume "t' = move src dst t"
    then show ?thesis by (simp add: exists_path_iff keys_move img)
  next
    assume "t' = move src dst (AList.delete dst t)"
    then show ?thesis using \<open>q \<noteq> dst\<close> by (simp add: exists_path_iff keys_move img keys_delete)
  qed
qed

lemma exists_rename_dst:
  assumes "rename src dst t = Inr t'" and "src \<noteq> []"
  shows "exists_path t' dst"
proof -
  from rename_Inr [OF assms(1)] assms(2) have k: "src \<in> fst ` set t"
    by (simp add: exists_path_iff)
  from rename_Inr [OF assms(1)] show ?thesis
  proof (elim conjE disjE)
    assume "src = dst" "t' = t"
    with k show ?thesis by (simp add: exists_path_iff)
  next
    assume "t' = move src dst t"
    moreover from k have "dst \<in> rekey src dst ` fst ` set t"
      using rekey_simps(3) [of src dst] by (metis imageI)
    ultimately show ?thesis by (simp add: exists_path_iff keys_move)
  next
    assume "src \<noteq> dst" "t' = move src dst (AList.delete dst t)"
    moreover from this k have "src \<in> fst ` set (AList.delete dst t)" by (simp add: keys_delete)
    then have "dst \<in> rekey src dst ` fst ` set (AList.delete dst t)"
      using rekey_simps(3) [of src dst] by (metis imageI)
    ultimately show ?thesis by (simp add: exists_path_iff keys_move)
  qed
qed

lemma exists_rename_src:
  assumes "rename src dst t = Inr t'" and "src \<noteq> []" and "\<not> prefix dst src"
  shows "\<not> exists_path t' src"
proof -
  have "src \<noteq> dst" using assms(3) by auto
  have img: "src \<notin> rekey src dst ` K" for K
  proof
    assume "src \<in> rekey src dst ` K"
    then obtain k where k: "k \<in> K" "src = rekey src dst k" by blast
    show False
    proof (cases "prefix src k")
      case True
      from rekey_simps(2) [OF True, of dst] k(2) assms(3) show ?thesis by simp
    next
      case False
      with k(2) show ?thesis by (simp add: rekey_def)
    qed
  qed
  from rename_Inr [OF assms(1)] \<open>src \<noteq> dst\<close> have
    "t' = move src dst t \<or> t' = move src dst (AList.delete dst t)" by blast
  then show ?thesis
  proof
    assume "t' = move src dst t"
    then show ?thesis using assms(2) img [of "fst ` set t"]
      by (simp add: exists_path_iff keys_move)
  next
    assume "t' = move src dst (AList.delete dst t)"
    then show ?thesis using assms(2) img [of "fst ` set (AList.delete dst t)"]
      by (simp add: exists_path_iff keys_move)
  qed
qed

lemma prefix_snoc_base: "prefix (a @ [x]) (b @ [y]) \<Longrightarrow> prefix a b"
  by (auto dest: append_prefixD)

text \<open>Bases that are pairwise unrelated: renaming under one does not touch another.\<close>

lemma unrelated_snoc:
  assumes "\<forall>a \<in> set (b # bs). \<forall>c \<in> set (b # bs). prefix a c \<longrightarrow> a = c"
    and "b \<notin> set bs" and "b' \<in> set bs"
  shows "\<not> prefix (b @ [x]) (b' @ [y])" and "\<not> prefix b' (b @ [x])"
proof -
  from assms have nb: "\<not> prefix b b'" and nb': "\<not> prefix b' b" by auto
  show "\<not> prefix (b @ [x]) (b' @ [y])"
  proof
    assume "prefix (b @ [x]) (b' @ [y])"
    then have "prefix b b'" by (rule prefix_snoc_base)
    with nb show False ..
  qed
  show "\<not> prefix b' (b @ [x])"
  proof
    assume "prefix b' (b @ [x])"
    then have "b' = b @ [x] \<or> prefix b' b" by (simp add: prefix_snoc)
    with nb' have "b' = b @ [x]" by blast
    then have "prefix b b'" by simp
    with nb show False ..
  qed
qed

lemma rename_class_dirs_Cons_skip:
  "\<not> exists_path (files w) (b @ [old]) \<Longrightarrow>
   rename_class_dirs old new (b # bs) w = rename_class_dirs old new bs w"
  by simp

lemma rename_class_dirs_Cons_Done:
  "exists_path (files w) (b @ [old]) \<Longrightarrow> os_rename (b @ [old]) (b @ [new]) w = Done w1 \<Longrightarrow>
   rename_class_dirs old new (b # bs) w = rename_class_dirs old new bs w1"
  by simp

lemma rename_class_dirs_Cons_Failed:
  "exists_path (files w) (b @ [old]) \<Longrightarrow> os_rename (b @ [old]) (b @ [new]) w = Failed e w1 \<Longrightarrow>
   rename_class_dirs old new (b # bs) w = Failed e w"
  by (simp add: os_rename_Failed)

lemma rename_class_dirs_trace:
  assumes "distinct ds" and "\<forall>a \<in> set ds. \<forall>c \<in> set ds. prefix a c \<longrightarrow> a = c"
  shows "(\<exists>k. trace (world_of (rename_class_dirs old new ds w)) =
               trace w @ take k (map (\<lambda>b. Rename (b @ [old]) (b @ [new]))
                                   (filter (\<lambda>b. exists_path (files w) (b @ [old])) ds))) \<and>
         (failure_of (rename_class_dirs old new ds w) = None \<longrightarrow>
            trace (world_of (rename_class_dirs old new ds w)) =
               trace w @ map (\<lambda>b. Rename (b @ [old]) (b @ [new]))
                             (filter (\<lambda>b. exists_path (files w) (b @ [old])) ds))"
  using assms
proof (induction ds arbitrary: w)
  case Nil
  show ?case by simp
next
  case (Cons b bs)
  let ?R = "\<lambda>b. Rename (b @ [old]) (b @ [new])"
  from Cons.prems have d: "distinct bs" and nb: "b \<notin> set bs"
    and u: "\<forall>a \<in> set bs. \<forall>c \<in> set bs. prefix a c \<longrightarrow> a = c" by auto
  show ?case
  proof (cases "exists_path (files w) (b @ [old])")
    case False
    with Cons.IH [OF d u, of w] show ?thesis by simp
  next
    case True
    show ?thesis
    proof (cases "os_rename (b @ [old]) (b @ [new]) w")
      case (Failed e w1)
      show ?thesis
        unfolding rename_class_dirs_Cons_Failed [OF True Failed] by (simp add: exI [of _ 0])
    next
      case (Done w1)
      note r = os_rename_Done [OF Done]
      have same: "exists_path (files w1) (b' @ [old]) = exists_path (files w) (b' @ [old])"
        if "b' \<in> set bs" for b'
        by (rule exists_rename_other [OF r(4)])
          (rule unrelated_snoc(1) [OF Cons.prems(2) nb that])+
      then have f: "filter (\<lambda>b. exists_path (files w1) (b @ [old])) bs =
                    filter (\<lambda>b. exists_path (files w) (b @ [old])) bs"
        by (auto intro: filter_cong)
      let ?L = "map ?R (filter (\<lambda>b. exists_path (files w) (b @ [old])) bs)"
      note ih = Cons.IH [OF d u, of w1, unfolded f]
      from ih [THEN conjunct1] obtain k where
        k: "trace (world_of (rename_class_dirs old new bs w1)) = trace w1 @ take k ?L" ..
      note full = ih [THEN conjunct2]
      have L: "map ?R (filter (\<lambda>b. exists_path (files w) (b @ [old])) (b # bs)) = ?R b # ?L"
        using True by simp
      have "trace (world_of (rename_class_dirs old new bs w1)) = trace w @ take (Suc k) (?R b # ?L)"
        by (simp add: k r(3))
      then have A: "\<exists>k. trace (world_of (rename_class_dirs old new bs w1)) =
          trace w @ take k (?R b # ?L)" by (rule exI)
      have B: "failure_of (rename_class_dirs old new bs w1) = None \<longrightarrow>
          trace (world_of (rename_class_dirs old new bs w1)) = trace w @ ?R b # ?L"
        using full by (simp add: r(3))
      from A B show ?thesis
        unfolding rename_class_dirs_Cons_Done [OF True Done] L by (rule conjI)
    qed
  qed
qed

lemma rename_class_dirs_frame:
  assumes "rename_class_dirs old new ds w = Done w'" and "\<forall>b \<in> set ds. \<not> prefix b q"
  shows "exists_path (files w') q = exists_path (files w) q"
  using assms
proof (induction ds arbitrary: w)
  case Nil
  then show ?case by simp
next
  case (Cons b bs)
  from Cons.prems(2) have nq: "\<not> prefix b q" and rest: "\<forall>b \<in> set bs. \<not> prefix b q" by auto
  show ?case
  proof (cases "exists_path (files w) (b @ [old])")
    case False
    with Cons.prems(1) have "rename_class_dirs old new bs w = Done w'" by simp
    from Cons.IH [OF this rest] show ?thesis .
  next
    case True
    show ?thesis
    proof (cases "os_rename (b @ [old]) (b @ [new]) w")
      case (Failed e w1)
      with True Cons.prems(1) show ?thesis by simp
    next
      case (Done w1)
      note r = os_rename_Done [OF Done]
      from nq have "\<not> prefix (b @ [old]) q" "\<not> prefix (b @ [new]) q"
        by (auto dest: append_prefixD)
      from exists_rename_other [OF r(4) this]
      have 1: "exists_path (files w1) q = exists_path (files w) q" .
      from True Done Cons.prems(1) have "rename_class_dirs old new bs w1 = Done w'" by simp
      from Cons.IH [OF this rest] 1 show ?thesis by simp
    qed
  qed
qed

lemma rename_class_dirs_effect:
  assumes "rename_class_dirs old new ds w = Done w'"
    and "distinct ds" and "\<forall>a \<in> set ds. \<forall>c \<in> set ds. prefix a c \<longrightarrow> a = c"
  shows "(\<forall>b \<in> set ds. exists_path (files w) (b @ [old]) \<longrightarrow> exists_path (files w') (b @ [new])) \<and>
         (old \<noteq> new \<longrightarrow> (\<forall>b \<in> set ds. \<not> exists_path (files w') (b @ [old])))"
  using assms
proof (induction ds arbitrary: w)
  case Nil
  show ?case by simp
next
  case (Cons b bs)
  from Cons.prems have d: "distinct bs" and nb: "b \<notin> set bs"
    and u: "\<forall>a \<in> set bs. \<forall>c \<in> set bs. prefix a c \<longrightarrow> a = c" by auto
  have away: "\<forall>b' \<in> set bs. \<not> prefix b' (b @ [x])" for x
  proof
    fix b' assume "b' \<in> set bs"
    then show "\<not> prefix b' (b @ [x])" by (rule unrelated_snoc(2) [OF Cons.prems(3) nb])
  qed
  show ?case
  proof (cases "exists_path (files w) (b @ [old])")
    case False
    with Cons.prems(1) have rest: "rename_class_dirs old new bs w = Done w'" by simp
    from rename_class_dirs_frame [OF rest away] False
    have "\<not> exists_path (files w') (b @ [old])" by simp
    with Cons.IH [OF rest d u] False show ?thesis by simp
  next
    case True
    show ?thesis
    proof (cases "os_rename (b @ [old]) (b @ [new]) w")
      case (Failed e w1)
      with True Cons.prems(1) show ?thesis by simp
    next
      case (Done w1)
      note r = os_rename_Done [OF Done]
      from True Done Cons.prems(1) have rest: "rename_class_dirs old new bs w1 = Done w'" by simp
      have same: "exists_path (files w1) (b' @ [old]) = exists_path (files w) (b' @ [old])"
        if "b' \<in> set bs" for b'
        by (rule exists_rename_other [OF r(4)])
          (rule unrelated_snoc(1) [OF Cons.prems(3) nb that])+
      have "exists_path (files w1) (b @ [new])"
        by (rule exists_rename_dst [OF r(4)]) simp
      with rename_class_dirs_frame [OF rest away]
      have new: "exists_path (files w') (b @ [new])" by simp
      have gone: "\<not> exists_path (files w') (b @ [old])" if "old \<noteq> new"
      proof -
        from that have "\<not> prefix (b @ [new]) (b @ [old])" by simp
        from exists_rename_src [OF r(4) _ this] have "\<not> exists_path (files w1) (b @ [old])"
          by simp
        with rename_class_dirs_frame [OF rest away] show ?thesis by simp
      qed
      note ih = Cons.IH [OF rest d u]
      have 1: "\<forall>c \<in> set (b # bs). exists_path (files w) (c @ [old]) \<longrightarrow>
          exists_path (files w') (c @ [new])"
      proof (intro ballI impI)
        fix c assume c: "c \<in> set (b # bs)" and e: "exists_path (files w) (c @ [old])"
        show "exists_path (files w') (c @ [new])"
        proof (cases "c = b")
          case True
          with new show ?thesis by simp
        next
          case False
          with c have cb: "c \<in> set bs" by simp
          with e same have "exists_path (files w1) (c @ [old])" by simp
          with ih [THEN conjunct1] cb show ?thesis by simp
        qed
      qed
      have 2: "old \<noteq> new \<longrightarrow> (\<forall>c \<in> set (b # bs). \<not> exists_path (files w') (c @ [old]))"
      proof (intro impI ballI)
        fix c assume on: "old \<noteq> new" and c: "c \<in> set (b # bs)"
        show "\<not> exists_path (files w') (c @ [old])"
        proof (cases "c = b")
          case True
          with gone [OF on] show ?thesis by simp
        next
          case False
          with c have "c \<in> set bs" by simp
          with ih [THEN conjunct2] on show ?thesis by simp
        qed
      qed
      from 1 2 show ?thesis by (rule conjI)
    qed
  qed
qed

lemma rename_class_dirs_none:
  "\<forall>b \<in> set ds. \<not> exists_path (files w) (b @ [old]) \<Longrightarrow> rename_class_dirs old new ds w = Done w"
  by (induction ds) simp_all

lemma os_rename_Failed_rename:
  "os_rename src dst w = Failed e w' \<Longrightarrow> rename src dst (files w) = Inl e"
  by (auto simp: os_rename_def split: sum.splits)

text \<open>A failure of the loop is the failure of the rename that was due next.\<close>

lemma rename_class_dirs_failure:
  assumes "distinct ds" and "\<forall>a \<in> set ds. \<forall>c \<in> set ds. prefix a c \<longrightarrow> a = c"
    and "rename_class_dirs old new ds w = Failed e w'"
  shows "\<exists>k < length (filter (\<lambda>b. exists_path (files w) (b @ [old])) ds).
           trace w' = trace w @ take k (map (\<lambda>b. Rename (b @ [old]) (b @ [new]))
                                          (filter (\<lambda>b. exists_path (files w) (b @ [old])) ds)) \<and>
           rename (filter (\<lambda>b. exists_path (files w) (b @ [old])) ds ! k @ [old])
                  (filter (\<lambda>b. exists_path (files w) (b @ [old])) ds ! k @ [new])
                  (files w') = Inl e"
  using assms
proof (induction ds arbitrary: w)
  case Nil
  then show ?case by simp
next
  case (Cons b bs)
  let ?R = "\<lambda>b. Rename (b @ [old]) (b @ [new])"
  from Cons.prems have d: "distinct bs" and nb: "b \<notin> set bs"
    and u: "\<forall>a \<in> set bs. \<forall>c \<in> set bs. prefix a c \<longrightarrow> a = c" by auto
  show ?case
  proof (cases "exists_path (files w) (b @ [old])")
    case False
    with Cons.prems(3) have "rename_class_dirs old new bs w = Failed e w'" by simp
    from Cons.IH [OF d u this] False show ?thesis by simp
  next
    case True
    let ?L = "filter (\<lambda>b. exists_path (files w) (b @ [old])) bs"
    have L: "filter (\<lambda>b. exists_path (files w) (b @ [old])) (b # bs) = b # ?L"
      using True by simp
    show ?thesis
    proof (cases "os_rename (b @ [old]) (b @ [new]) w")
      case (Failed e1 w1)
      from Cons.prems(3) have "e = e1" "w' = w"
        unfolding rename_class_dirs_Cons_Failed [OF True Failed] by simp_all
      with os_rename_Failed_rename [OF Failed]
      have "rename (b @ [old]) (b @ [new]) (files w') = Inl e" by simp
      with \<open>w' = w\<close> have "0 < length (b # ?L) \<and>
          trace w' = trace w @ take 0 (map ?R (b # ?L)) \<and>
          rename ((b # ?L) ! 0 @ [old]) ((b # ?L) ! 0 @ [new]) (files w') = Inl e" by simp
      then show ?thesis unfolding L by (rule exI)
    next
      case (Done w1)
      note r = os_rename_Done [OF Done]
      have same: "exists_path (files w1) (b' @ [old]) = exists_path (files w) (b' @ [old])"
        if "b' \<in> set bs" for b'
        by (rule exists_rename_other [OF r(4)])
          (rule unrelated_snoc(1) [OF Cons.prems(2) nb that])+
      then have f: "filter (\<lambda>b. exists_path (files w1) (b @ [old])) bs = ?L"
        by (auto intro: filter_cong)
      from Cons.prems(3) have "rename_class_dirs old new bs w1 = Failed e w'"
        unfolding rename_class_dirs_Cons_Done [OF True Done] .
      from Cons.IH [OF d u this, unfolded f] obtain k where
        k: "k < length ?L" "trace w' = trace w1 @ take k (map ?R ?L)"
          "rename (?L ! k @ [old]) (?L ! k @ [new]) (files w') = Inl e" by blast
      then have "Suc k < length (b # ?L) \<and>
          trace w' = trace w @ take (Suc k) (map ?R (b # ?L)) \<and>
          rename ((b # ?L) ! Suc k @ [old]) ((b # ?L) ! Suc k @ [new]) (files w') = Inl e"
        by (simp add: r(3))
      then show ?thesis unfolding L by (rule exI)
    qed
  qed
qed

text \<open>
  The directory step of \<^verbatim>\<open>edit_class\<close>, once the old name is a class and the listing of the
  base directories has returned.
\<close>

lemma edit_class_dirs:
  assumes "lookup_project_path w project = Some p"
    and "load_project_config w p = Some c"
    and "map_of (classes c) old = Some ts"
    and "data_dirs (files w) p SPLITS = Inr ds"
  shows "ds = concat (map (split_bases (files w) p) SPLITS) \<and>
         (\<exists>k. trace (world_of (edit_class project old new w)) =
                trace w @ ConfigWrite p #
                  take k (map (\<lambda>b. Rename (b @ [old]) (b @ [new]))
                              (filter (\<lambda>b. exists_path (files w) (b @ [old])) ds))) \<and>
         (failure_of (edit_class project old new w) = None \<longrightarrow>
            trace (world_of (edit_class project old new w)) =
              trace w @ ConfigWrite p #
                map (\<lambda>b. Rename (b @ [old]) (b @ [new]))
                    (filter (\<lambda>b. exists_path (files w) (b @ [old])) ds) \<and>
            (\<forall>b \<in> set ds. exists_path (files w) (b @ [old]) \<longrightarrow>
               exists_path (files (world_of (edit_class project old new w))) (b @ [new])) \<and>
            (old \<noteq> new \<longrightarrow>
               (\<forall>b \<in> set ds.
                  \<not> exists_path (files (world_of (edit_class project old new w))) (b @ [old])))) \<and>
         (\<forall>e. failure_of (edit_class project old new w) = Some e \<longrightarrow>
            (\<exists>k < length (filter (\<lambda>b. exists_path (files w) (b @ [old])) ds).
               trace (world_of (edit_class project old new w)) =
                 trace w @ ConfigWrite p #
                   take k (map (\<lambda>b. Rename (b @ [old]) (b @ [new]))
                               (filter (\<lambda>b. exists_path (files w) (b @ [old])) ds)) \<and>
               rename (filter (\<lambda>b. exists_path (files w) (b @ [old])) ds ! k @ [old])
                      (filter (\<lambda>b. exists_path (files w) (b @ [old])) ds ! k @ [new])
                      (files (world_of (edit_class project old new w))) = Inl e)) \<and>
         ((\<forall>b \<in> set ds. \<not> exists_path (files w) (b @ [old])) \<longrightarrow>
            files (world_of (edit_class project old new w)) = files w \<and>
            failure_of (edit_class project old new w) = None)"
proof -
  let ?w1 = "write_project_config p
               (c\<lparr>classes := AList.update new ts (AList.delete old (classes c))\<rparr>) w"
  let ?r = "rename_class_dirs old new ds ?w1"
  let ?L = "filter (\<lambda>b. exists_path (files w) (b @ [old])) ds"
  let ?R = "\<lambda>b. Rename (b @ [old]) (b @ [new])"
  have fw: "files ?w1 = files w" and tw: "trace ?w1 = trace w @ [ConfigWrite p]"
    by (simp_all add: write_project_config_frame)
  have eq: "edit_class project old new w = ?r"
    using assms by (simp add: edit_class_def Let_def fw)
  have ds: "ds = concat (map (split_bases (files w) p) SPLITS)"
    by (rule data_dirs_bases [OF assms(4)])
  have "distinct SPLITS" by (simp add: SPLITS_def)
  then have d: "distinct ds" unfolding ds by (rule distinct_all_bases)
  have u: "\<forall>a \<in> set ds. \<forall>b \<in> set ds. prefix a b \<longrightarrow> a = b"
    unfolding ds using all_bases_prefix by blast
  note tr = rename_class_dirs_trace [OF d u, of old new ?w1, unfolded fw tw]
  from tr [THEN conjunct1] obtain k where
    "trace (world_of ?r) = (trace w @ [ConfigWrite p]) @ take k (map ?R ?L)" ..
  then have "trace (world_of ?r) = trace w @ ConfigWrite p # take k (map ?R ?L)" by simp
  then have c2: "\<exists>k. trace (world_of ?r) = trace w @ ConfigWrite p # take k (map ?R ?L)"
    by (rule exI)
  have c3: "trace (world_of ?r) = trace w @ ConfigWrite p # map ?R ?L \<and>
            (\<forall>b \<in> set ds. exists_path (files w) (b @ [old]) \<longrightarrow>
               exists_path (files (world_of ?r)) (b @ [new])) \<and>
            (old \<noteq> new \<longrightarrow> (\<forall>b \<in> set ds. \<not> exists_path (files (world_of ?r)) (b @ [old])))"
    if ok: "failure_of ?r = None"
  proof -
    from ok obtain w' where w': "?r = Done w'" by (cases ?r) simp_all
    from tr [THEN conjunct2] ok have 1: "trace (world_of ?r) =
        trace w @ ConfigWrite p # map ?R ?L" by simp
    from rename_class_dirs_effect [OF w' d u, unfolded fw] have
      "(\<forall>b \<in> set ds. exists_path (files w) (b @ [old]) \<longrightarrow>
               exists_path (files (world_of ?r)) (b @ [new])) \<and>
            (old \<noteq> new \<longrightarrow> (\<forall>b \<in> set ds. \<not> exists_path (files (world_of ?r)) (b @ [old])))"
      by (simp add: w')
    with 1 show ?thesis by (rule conjI)
  qed
  have c4: "\<exists>k < length ?L.
               trace (world_of ?r) = trace w @ ConfigWrite p # take k (map ?R ?L) \<and>
               rename (?L ! k @ [old]) (?L ! k @ [new]) (files (world_of ?r)) = Inl e"
    if bad: "failure_of ?r = Some e" for e
  proof -
    from bad obtain w' where w': "?r = Failed e w'" by (cases ?r) simp_all
    from rename_class_dirs_failure [OF d u w', unfolded fw tw] obtain k where
      "k < length ?L" "trace w' = (trace w @ [ConfigWrite p]) @ take k (map ?R ?L)"
      "rename (?L ! k @ [old]) (?L ! k @ [new]) (files w') = Inl e" by blast
    then have "k < length ?L \<and>
        trace (world_of ?r) = trace w @ ConfigWrite p # take k (map ?R ?L) \<and>
        rename (?L ! k @ [old]) (?L ! k @ [new]) (files (world_of ?r)) = Inl e"
      by (simp add: w')
    then show ?thesis by (rule exI)
  qed
  have c5: "files (world_of ?r) = files w \<and> failure_of ?r = None"
    if "\<forall>b \<in> set ds. \<not> exists_path (files w) (b @ [old])"
  proof -
    from that have "\<forall>b \<in> set ds. \<not> exists_path (files ?w1) (b @ [old])" by (simp add: fw)
    then have "?r = Done ?w1" by (rule rename_class_dirs_none)
    then show ?thesis by (simp add: fw)
  qed
  from c3 have c3': "failure_of ?r = None \<longrightarrow>
            trace (world_of ?r) = trace w @ ConfigWrite p # map ?R ?L \<and>
            (\<forall>b \<in> set ds. exists_path (files w) (b @ [old]) \<longrightarrow>
               exists_path (files (world_of ?r)) (b @ [new])) \<and>
            (old \<noteq> new \<longrightarrow> (\<forall>b \<in> set ds. \<not> exists_path (files (world_of ?r)) (b @ [old])))"
    by (rule impI)
  from c4 have c4': "\<forall>e. failure_of ?r = Some e \<longrightarrow> (\<exists>k < length ?L.
               trace (world_of ?r) = trace w @ ConfigWrite p # take k (map ?R ?L) \<and>
               rename (?L ! k @ [old]) (?L ! k @ [new]) (files (world_of ?r)) = Inl e)"
    by (intro allI impI)
  from c5 have c5': "(\<forall>b \<in> set ds. \<not> exists_path (files w) (b @ [old])) \<longrightarrow>
      files (world_of ?r) = files w \<and> failure_of ?r = None" by (rule impI)
  show ?thesis unfolding eq by (intro conjI ds c2 c3' c4' c5')
qed

lemma sample_data_dirs:
  "data_dirs (files sample_world) sample_path SPLITS =
     Inr [[''data'', ''gestures'', ''videos_train''],
          [''data'', ''gestures'', ''frames_train''],
          [''data'', ''gestures'', ''tags_train''],
          [''data'', ''gestures'', ''features_train'', ''efficientnet'', ''0''],
          [''data'', ''gestures'', ''videos_valid''],
          [''data'', ''gestures'', ''frames_valid''],
          [''data'', ''gestures'', ''tags_valid'']]"
  by code_simp

text \<open>
  C3, as the code has it: for a registered project with a configuration, renaming a class
  fails with \<open>KeyError\<close> when the old name is not a class, before anything is written, so
  configuration and directories are as before. It never fails because the new name is
  taken: the tag list of the old class is stored under the new name (replacing the tags
  an existing class of that name had), the old entry is deleted, every other class keeps
  its tags, the configuration is written, and only then are the directories renamed: a
  failing listing of the base directories stops the handler with tree and trace as the
  write left them; otherwise the renames are those of the class directory under each base
  that has one, in order, all of them when the handler returns, and up to the one whose
  \<open>rename\<close> fails otherwise.
\<close>

theorem edit_class_overwrites:
  assumes "lookup_project_path w project = Some p"
    and "load_project_config w p = Some c"
  shows "(map_of (classes c) old = None \<longrightarrow> edit_class project old new w = Failed KeyError w) \<and>
         (\<forall>ts. map_of (classes c) old = Some ts \<longrightarrow>
            class_tags_at (world_of (edit_class project old new w)) p new = Some ts \<and>
            (old \<noteq> new \<longrightarrow> class_tags_at (world_of (edit_class project old new w)) p old = None) \<and>
            (\<forall>cn. cn \<noteq> old \<and> cn \<noteq> new \<longrightarrow>
               class_tags_at (world_of (edit_class project old new w)) p cn = map_of (classes c) cn) \<and>
            (\<forall>e. data_dirs (files w) p SPLITS = Inl e \<longrightarrow>
               failure_of (edit_class project old new w) = Some e \<and>
               files (world_of (edit_class project old new w)) = files w \<and>
               trace (world_of (edit_class project old new w)) = trace w @ [ConfigWrite p]) \<and>
            (\<forall>ds. data_dirs (files w) p SPLITS = Inr ds \<longrightarrow>
         (\<exists>k. trace (world_of (edit_class project old new w)) =
                trace w @ ConfigWrite p #
                  take k (map (\<lambda>b. Rename (b @ [old]) (b @ [new]))
                              (filter (\<lambda>b. exists_path (files w) (b @ [old])) ds))) \<and>
         (failure_of (edit_class project old new w) = None \<longrightarrow>
            trace (world_of (edit_class project old new w)) =
              trace w @ ConfigWrite p #
                map (\<lambda>b. Rename (b @ [old]) (b @ [new]))
                    (filter (\<lambda>b. exists_path (files w) (b @ [old])) ds) \<and>
            (\<forall>b \<in> set ds. exists_path (files w) (b @ [old]) \<longrightarrow>
               exists_path (files (world_of (edit_class project old new w))) (b @ [new])) \<and>
            (old \<noteq> new \<longrightarrow>
               (\<forall>b \<in> set ds.
                  \<not> exists_path (files (world_of (edit_class project old new w))) (b @ [old])))) \<and>
         (\<forall>e. failure_of (edit_class project old new w) = Some e \<longrightarrow>
            (\<exists>k < length (filter (\<lambda>b. exists_path (files w) (b @ [old])) ds).
               trace (world_of (edit_class project old new w)) =
                 trace w @ ConfigWrite p #
                   take k (map (\<lambda>b. Rename (b @ [old]) (b @ [new]))
                               (filter (\<lambda>b. exists_path (files w) (b @ [old])) ds)) \<and>
               rename (filter (\<lambda>b. exists_path (files w) (b @ [old])) ds ! k @ [old])
                      (filter (\<lambda>b. exists_path (files w) (b @ [old])) ds ! k @ [new])
                      (files (world_of (edit_class project old new w))) = Inl e)) \<and>
         ((\<forall>b \<in> set ds. \<not> exists_path (files w) (b @ [old])) \<longrightarrow>
            files (world_of (edit_class project old new w)) = files w \<and>
            failure_of (edit_class project old new w) = None)))"
    (is "_ \<and> (\<forall>ts. _ \<longrightarrow> ?B ts)"
     is "_ \<and> (\<forall>ts. _ \<longrightarrow> _ \<and> _ \<and> _ \<and> _ \<and> (\<forall>ds. _ \<longrightarrow> ?C ds))")
proof -
  have a: "edit_class project old new w = Failed KeyError w" if "map_of (classes c) old = None"
    using assms that by (simp add: edit_class_def)
  have b: "class_tags_at (world_of (edit_class project old new w)) p new = Some ts \<and>
         (old \<noteq> new \<longrightarrow> class_tags_at (world_of (edit_class project old new w)) p old = None) \<and>
         (\<forall>cn. cn \<noteq> old \<and> cn \<noteq> new \<longrightarrow>
            class_tags_at (world_of (edit_class project old new w)) p cn = map_of (classes c) cn)"
    and b2: "\<forall>e. data_dirs (files w) p SPLITS = Inl e \<longrightarrow>
               failure_of (edit_class project old new w) = Some e \<and>
               files (world_of (edit_class project old new w)) = files w \<and>
               trace (world_of (edit_class project old new w)) = trace w @ [ConfigWrite p]"
    if ts: "map_of (classes c) old = Some ts" for ts
  proof -
    let ?c' = "c\<lparr>classes := AList.update new ts (AList.delete old (classes c))\<rparr>"
    let ?w1 = "write_project_config p ?c' w"
    have fw: "files ?w1 = files w" by (simp add: write_project_config_frame)
    have cfg: "configs (world_of (edit_class project old new w)) = configs ?w1"
    proof (cases "data_dirs (files ?w1) p SPLITS")
      case (Inl e)
      then have "edit_class project old new w = Failed e ?w1"
        using assms ts by (simp add: edit_class_def Let_def)
      then show ?thesis by simp
    next
      case (Inr ds)
      then have "edit_class project old new w = rename_class_dirs old new ds ?w1"
        using assms ts by (simp add: edit_class_def Let_def)
      with rename_class_dirs_props [of old new ds ?w1] show ?thesis by simp
    qed
    then have "class_tags_at (world_of (edit_class project old new w)) p cn =
        map_of (classes ?c') cn" for cn
      by (simp add: class_tags_at_def load_project_config_def write_project_config_def update_conv')
    then show "class_tags_at (world_of (edit_class project old new w)) p new = Some ts \<and>
         (old \<noteq> new \<longrightarrow> class_tags_at (world_of (edit_class project old new w)) p old = None) \<and>
         (\<forall>cn. cn \<noteq> old \<and> cn \<noteq> new \<longrightarrow>
            class_tags_at (world_of (edit_class project old new w)) p cn = map_of (classes c) cn)"
      by (simp add: update_conv' delete_conv')
    show "\<forall>e. data_dirs (files w) p SPLITS = Inl e \<longrightarrow>
               failure_of (edit_class project old new w) = Some e \<and>
               files (world_of (edit_class project old new w)) = files w \<and>
               trace (world_of (edit_class project old new w)) = trace w @ [ConfigWrite p]"
    proof (intro allI impI)
      fix e assume "data_dirs (files w) p SPLITS = Inl e"
      then have "edit_class project old new w = Failed e ?w1"
        using assms ts by (simp add: edit_class_def Let_def fw)
      then show "failure_of (edit_class project old new w) = Some e \<and>
               files (world_of (edit_class project old new w)) = files w \<and>
               trace (world_of (edit_class project old new w)) = trace w @ [ConfigWrite p]"
        by (simp add: write_project_config_frame)
    qed
  qed
  have B: "?B ts" if ts: "map_of (classes c) old = Some ts" for ts
  proof -
    note b1 = b [OF ts, THEN conjunct1]
      and b3 = b [OF ts, THEN conjunct2, THEN conjunct1]
      and b4 = b [OF ts, THEN conjunct2, THEN conjunct2]
    have c: "\<forall>ds. data_dirs (files w) p SPLITS = Inr ds \<longrightarrow> ?C ds"
    proof (intro allI impI)
      fix ds assume "data_dirs (files w) p SPLITS = Inr ds"
      from edit_class_dirs [OF assms ts this, THEN conjunct2] show "?C ds" .
    qed
    show ?thesis by (intro conjI b1 b3 b4 b2 [OF ts] c)
  qed
  have A: "map_of (classes c) old = None \<longrightarrow> edit_class project old new w = Failed KeyError w"
    using a by (rule impI)
  from B have "\<forall>ts. map_of (classes c) old = Some ts \<longrightarrow> ?B ts" by (intro allI impI)
  with A show ?thesis by (rule conjI)
qed

theorem edit_class_overwrites_witness:
  "edit_class ''gestures'' ''up'' ''right'' sample_world = Failed KeyError sample_world \<and>
   class_tags_at (world_of (edit_class ''gestures'' ''left'' ''right'' sample_world))
     sample_path ''right'' = Some [0, 1] \<and>
   class_tags_at (world_of (edit_class ''gestures'' ''left'' ''right'' sample_world))
     sample_path ''left'' = None \<and>
   trace (world_of (edit_class ''gestures'' ''left'' ''right'' sample_world)) =
     [ConfigWrite [''data'', ''gestures''],
      Rename [''data'', ''gestures'', ''videos_train'', ''left'']
             [''data'', ''gestures'', ''videos_train'', ''right''],
      Rename [''data'', ''gestures'', ''tags_train'', ''left'']
             [''data'', ''gestures'', ''tags_train'', ''right''],
      Rename [''data'', ''gestures'', ''features_train'', ''efficientnet'', ''0'', ''left'']
             [''data'', ''gestures'', ''features_train'', ''efficientnet'', ''0'', ''right''],
      Rename [''data'', ''gestures'', ''videos_valid'', ''left'']
             [''data'', ''gestures'', ''videos_valid'', ''right'']]"
proof -
  have ok: "failure_of (edit_class ''gestures'' ''left'' ''right'' sample_world) = None"
    by code_simp
  have ne: "''left'' \<noteq> ''right''" by simp
  have L: "trace sample_world @ ConfigWrite sample_path #
      map (\<lambda>b. Rename (b @ [''left'']) (b @ [''right'']))
        (filter (\<lambda>b. exists_path (files sample_world) (b @ [''left'']))
          [[''data'', ''gestures'', ''videos_train''],
          [''data'', ''gestures'', ''frames_train''],
          [''data'', ''gestures'', ''tags_train''],
          [''data'', ''gestures'', ''features_train'', ''efficientnet'', ''0''],
          [''data'', ''gestures'', ''videos_valid''],
          [''data'', ''gestures'', ''frames_valid''],
          [''data'', ''gestures'', ''tags_valid'']]) =
     [ConfigWrite [''data'', ''gestures''],
      Rename [''data'', ''gestures'', ''videos_train'', ''left'']
             [''data'', ''gestures'', ''videos_train'', ''right''],
      Rename [''data'', ''gestures'', ''tags_train'', ''left'']
             [''data'', ''gestures'', ''tags_train'', ''right''],
      Rename [''data'', ''gestures'', ''features_train'', ''efficientnet'', ''0'', ''left'']
             [''data'', ''gestures'', ''features_train'', ''efficientnet'', ''0'', ''right''],
      Rename [''data'', ''gestures'', ''videos_valid'', ''left'']
             [''data'', ''gestures'', ''videos_valid'', ''right'']]"
    by code_simp
  note a = edit_class_overwrites [OF sample_lookup sample_load,
      where old = "''up''" and new = "''right''", THEN conjunct1, THEN mp, OF sample_classes(3)]
  note u = edit_class_overwrites [OF sample_lookup sample_load,
      where old = "''left''" and new = "''right''", THEN conjunct2, THEN spec, THEN mp,
      OF sample_classes(1)]
  note b1 = u [THEN conjunct1]
  note b2 = u [THEN conjunct2, THEN conjunct1, THEN mp, OF ne]
  note dirs = u [THEN conjunct2, THEN conjunct2, THEN conjunct2, THEN conjunct2, THEN spec,
      THEN mp, OF sample_data_dirs]
  note tr = dirs [THEN conjunct2, THEN conjunct1, THEN mp, OF ok, THEN conjunct1]
  show ?thesis by (intro conjI a b1 b2 trans [OF tr L])
qed

text \<open>
  The claim as stated fails: \<open>right\<close> is a class of the sample; renaming \<open>left\<close> to
  \<open>right\<close> succeeds, replaces the tags of \<open>right\<close> and renames the directory of \<open>left\<close>.
\<close>

theorem edit_class_duplicate_counterexample:
  "class_tags_at sample_world sample_path ''right'' = Some [] \<and>
   exists_path (files sample_world) [''data'', ''gestures'', ''videos_train'', ''left''] \<and>
   failure_of (edit_class ''gestures'' ''left'' ''right'' sample_world) = None \<and>
   class_tags_at (world_of (edit_class ''gestures'' ''left'' ''right'' sample_world))
     sample_path ''right'' = Some [0, 1] \<and>
   \<not> exists_path (files (world_of (edit_class ''gestures'' ''left'' ''right'' sample_world)))
     [''data'', ''gestures'', ''videos_train'', ''left'']"
  by code_simp



subsection \<open>Flipping videos: the flipped name\<close>

text \<open>
  C6: the flipped name of a video without the marker is cut at the first dot of the name,
  not at the extension. So \<open>a.b.mp4\<close> gets the flipped name \<open>a_flipped.mp4\<close>, the same as
  \<open>a.c.mp4\<close>, and the flipped name of that is \<open>a.mp4\<close>, not the name the round trip
  started from. The branch that removes the marker and the name of the annotation file
  both keep everything before the extension.
\<close>

theorem flipped_video_name_first_dot:
  "flipped_video_name ''a.b.mp4'' = Inr ''a_flipped.mp4'' \<and>
   flipped_video_name ''a_flipped.mp4'' = Inr ''a.mp4'' \<and>
   flipped_video_name ''a.c.mp4'' = Inr ''a_flipped.mp4'' \<and>
   flipped_video_name ''a.b_flipped.mp4'' = Inr ''a.b.mp4'' \<and>
   replace_py VIDEO_EXT ''.json'' ''a.b.mp4'' = ''a.b.json''"
  by code_simp

subsection \<open>Flipping videos: what the steps may do\<close>

lemma steps_only_refl: "steps_only Q w w"
  by (simp add: steps_only_def)

lemma steps_only_trans:
  assumes "steps_only Q w w1" and "steps_only Q w1 w2"
  shows "steps_only Q w w2"
proof -
  from assms obtain e1 e2 where e: "trace w1 = trace w @ e1" "trace w2 = trace w1 @ e2"
    by (auto simp: steps_only_def prefix_def)
  with assms show ?thesis by (simp add: steps_only_def)
qed

lemma steps_only_append:
  "trace w' = trace w @ evs \<Longrightarrow> list_all Q evs \<Longrightarrow> steps_only Q w w'"
  by (simp add: steps_only_def)

lemma steps_onlyD:
  "steps_only Q w w' \<Longrightarrow> \<exists>evs. trace w' = trace w @ evs \<and> list_all Q evs"
  by (auto simp: steps_only_def prefix_def)

lemma grows_refl: "grows Q w w"
  by (simp add: grows_def steps_only_refl)

lemma grows_trans: "grows Q w w1 \<Longrightarrow> grows Q w1 w2 \<Longrightarrow> grows Q w w2"
  unfolding grows_def using steps_only_trans [of Q w w1 w2] by simp

lemma grows_and_then:
  assumes "grows Q w (world_of r)"
    and "\<And>w1. r = Done w1 \<Longrightarrow> grows Q w1 (world_of (f w1))"
  shows "grows Q w (world_of (and_then r f))"
proof (cases r)
  case (Done w1)
  with assms(1) have "grows Q w w1" by simp
  with assms(2) [OF Done] have "grows Q w (world_of (f w1))" by (rule grows_trans [rotated])
  with Done show ?thesis by simp
next
  case (Failed e w1)
  with assms(1) show ?thesis by simp
qed

lemma exists_path_snoc: "exists_path t q \<Longrightarrow> exists_path (t @ [(p, n)]) q"
  by (auto simp: exists_path_def node_at_def)

lemma exists_path_update: "exists_path t q \<Longrightarrow> exists_path (AList.update p n t) q"
  by (auto simp: exists_path_def node_at_def update_conv')

lemma os_mkdir_grows:
  assumes "Q (Mkdir p)"
  shows "grows Q w (world_of (os_mkdir p w))"
proof (cases "mkdir p (files w)")
  case (Inl e)
  then show ?thesis by (simp add: os_mkdir_def grows_refl)
next
  case (Inr t)
  then have t: "t = files w @ [(p, Dir)]"
    by (auto simp: mkdir_def split: if_splits option.splits node.splits)
  from Inr have "os_mkdir p w = Done (w\<lparr>files := t, trace := trace w @ [Mkdir p]\<rparr>)"
    by (simp add: os_mkdir_def)
  with assms show ?thesis
    by (simp add: grows_def steps_only_def t exists_path_snoc)
qed

lemma makedirs_grows:
  assumes Q: "\<And>q. Q (Mkdir q)"
  shows "grows Q w (world_of (makedirs p w))"
proof (induction p w rule: makedirs.induct)
  case (1 p w)
  let ?r0 = "if p \<noteq> [] \<and> \<not> exists_path (files w) (butlast p)
        then (case makedirs (butlast p) w of
                Failed e w' \<Rightarrow> if e = FileExistsError then Done w' else Failed e w'
              | Done w' \<Rightarrow> Done w')
        else Done w"
  let ?f = "\<lambda>w'. case os_mkdir p w' of
                Failed e w'' \<Rightarrow> if is_dir (files w') p then Done w' else Failed e w''
              | Done w'' \<Rightarrow> Done w''"
  have a: "grows Q w (world_of ?r0)"
  proof (cases "p \<noteq> [] \<and> \<not> exists_path (files w) (butlast p)")
    case True
    then have "world_of ?r0 = world_of (makedirs (butlast p) w)"
      by (cases "makedirs (butlast p) w") simp_all
    with 1 [OF True] show ?thesis by simp
  next
    case False
    then have "?r0 = Done w" by auto
    then show ?thesis by (simp only: world_of.simps grows_refl)
  qed
  have b: "grows Q w1 (world_of (?f w1))" for w1
  proof (cases "os_mkdir p w1")
    case (Done w2)
    with os_mkdir_grows [of Q p w1] Q show ?thesis by simp
  next
    case (Failed e w2)
    with os_mkdir_Failed [OF Failed] show ?thesis by (simp add: grows_refl)
  qed
  have "grows Q w (world_of (and_then ?r0 ?f))"
    by (rule grows_and_then [OF a]) (rule b)
  then show ?case by (subst makedirs.simps)
qed

lemma write_file_Inr: "write_file q c t = Inr t' \<Longrightarrow> t' = AList.update q (File c) t"
  by (auto simp: write_file_def split: if_splits option.splits node.splits)

lemma ffmpeg_run_grows:
  assumes "Q (Render split video fi fo)"
  shows "grows Q w (world_of (ffmpeg_run hflip split video fi fo w))"
proof (cases "ffmpeg_run hflip split video fi fo w")
  case (Failed e w')
  then have "w' = w"
    by (auto simp: ffmpeg_run_def split: option.splits node.splits sum.splits)
  with Failed show ?thesis by (simp add: grows_refl)
next
  case (Done w')
  then obtain c t where "write_file fo c (files w) = Inr t"
    and w': "w' = w\<lparr>files := t, trace := trace w @ [Render split video fi fo]\<rparr>"
    by (auto simp: ffmpeg_run_def split: option.splits node.splits sum.splits)
  from write_file_Inr [OF this(1)] w' assms Done show ?thesis
    by (simp add: grows_def steps_only_def exists_path_update)
qed

lemma copy_tags_grows:
  assumes "\<And>f. Q (TagsRead split video f)" and "\<And>f. Q (TagsWrite split video f)"
  shows "grows Q w (world_of (copy_tags split video fl otp ctp w))"
proof -
  let ?of = "otp @ [replace_py VIDEO_EXT ''.json'' video]"
  let ?ff = "ctp @ [replace_py VIDEO_EXT ''.json'' fl]"
  let ?w1 = "w\<lparr>trace := trace w @ [TagsRead split video ?of]\<rparr>"
  have g1: "grows Q w ?w1"
    using assms(1) by (simp add: grows_def steps_only_def)
  show ?thesis
  proof (cases "exists_path (files w) ?of")
    case False
    then show ?thesis by (simp add: copy_tags_def Let_def grows_refl)
  next
    case True
    show ?thesis
    proof (cases "node_at (files w) ?of")
      case None
      with True show ?thesis by (simp add: copy_tags_def Let_def grows_refl)
    next
      case (Some n)
      show ?thesis
      proof (cases n)
        case Dir
        with Some True show ?thesis by (simp add: copy_tags_def Let_def grows_refl)
      next
        case (File ct)
        show ?thesis
        proof (cases ct)
          case (Blob b)
          with File Some True g1 show ?thesis by (simp add: copy_tags_def Let_def)
        next
          case (JsonObj tags)
          let ?c = "JsonObj (AList.update ''file'' fl tags)"
          show ?thesis
          proof (cases "write_file ?ff ?c (files w)")
            case (Inl e)
            with JsonObj File Some True g1 show ?thesis by (simp add: copy_tags_def Let_def)
          next
            case (Inr t)
            let ?w2 = "?w1\<lparr>files := t, trace := trace ?w1 @ [TagsWrite split video ?ff]\<rparr>"
            from write_file_Inr [OF Inr] assms(2) have "grows Q ?w1 ?w2"
              by (simp add: grows_def steps_only_def exists_path_update)
            with g1 have "grows Q w ?w2" by (rule grows_trans)
            with Inr JsonObj File Some True show ?thesis by (simp add: copy_tags_def Let_def)
          qed
        qed
      qed
    qed
  qed
qed

lemma flip_video_grows:
  assumes "\<And>a b. Q (Render split video a b)"
    and "\<And>f. Q (TagsRead split video f)" and "\<And>f. Q (TagsWrite split video f)"
  shows "grows Q w (world_of (flip_video hflip cvt p original counterpart split video w))"
proof (cases "listdir (files w) (p @ [''videos_'' @ split, counterpart])")
  case (Inl e)
  then show ?thesis by (simp add: flip_video_def Let_def grows_refl)
next
  case (Inr ls)
  show ?thesis
  proof (cases "flipped_video_name video")
    case (Inl e)
    with Inr show ?thesis by (simp add: flip_video_def Let_def grows_refl)
  next
    case fl: (Inr fl)
    show ?thesis
    proof (cases "fl \<in> set (filter (\<lambda>op_video. endswith op_video VIDEO_EXT) ls)")
      case True
      with Inr fl show ?thesis by (simp add: flip_video_def Let_def grows_refl)
    next
      case False
      let ?run = "ffmpeg_run hflip split video ((p @ [''videos_'' @ split, original]) @ [video])
                    ((p @ [''videos_'' @ split, counterpart]) @ [fl]) w"
      let ?k = "\<lambda>w'. case map_of cvt split of
                       None \<Rightarrow> Failed KeyError w'
                     | Some vs \<Rightarrow>
                         if video \<in> set vs
                         then copy_tags split video fl (p @ [''tags_'' @ split, original])
                                (p @ [''tags_'' @ split, counterpart]) w'
                         else Done w'"
      have k: "grows Q w1 (world_of (?k w1))" for w1
      proof (cases "map_of cvt split")
        case None
        then show ?thesis by (simp add: grows_refl)
      next
        case (Some vs)
        with copy_tags_grows [of Q split video, OF assms(2,3)] show ?thesis
          by (simp add: grows_refl)
      qed
      have run: "grows Q w (world_of ?run)"
        using assms(1) by (rule ffmpeg_run_grows [where Q = Q])
      have G: "grows Q w (world_of (and_then ?run ?k))"
        using run by (rule grows_and_then) (rule k)
      have eq: "flip_video hflip cvt p original counterpart split video w = and_then ?run ?k"
        unfolding flip_video_def Let_def Inr fl
        by (simp only: sum.case False not_False_eq_True if_True)
      show ?thesis unfolding eq by (rule G)
    qed
  qed
qed

lemma grows_and_then_inv:
  assumes "I w" and pres: "\<And>w w'. I w \<Longrightarrow> grows Q w w' \<Longrightarrow> I w'"
    and r: "grows Q w (world_of r)"
    and f: "\<And>w1. I w1 \<Longrightarrow> grows Q w1 (world_of (f w1))"
  shows "grows Q w (world_of (and_then r f))"
proof (rule grows_and_then [OF r])
  fix w1 assume "r = Done w1"
  with r have "grows Q w w1" by simp
  with assms(1) have "I w1" by (rule pres)
  then show "grows Q w1 (world_of (f w1))" by (rule f)
qed

lemma flip_video_list_grows:
  assumes step: "\<And>v w. v \<in> set vs \<Longrightarrow> I w \<Longrightarrow>
      grows Q w (world_of (flip_video h cvt p original counterpart s v w))"
    and pres: "\<And>w w'. I w \<Longrightarrow> grows Q w w' \<Longrightarrow> I w'"
    and "I w"
  shows "grows Q w (world_of (flip_video_list h cvt p original counterpart s vs w))"
  using step \<open>I w\<close>
proof (induction vs arbitrary: w)
  case Nil
  show ?case by (simp add: grows_refl)
next
  case (Cons v vs)
  have first: "grows Q w (world_of (flip_video h cvt p original counterpart s v w))"
    by (rule Cons.prems(1)) (simp_all add: Cons.prems(2))
  have rest: "grows Q w1 (world_of (flip_video_list h cvt p original counterpart s vs w1))"
    if "I w1" for w1
  proof (rule Cons.IH [OF _ that])
    fix v' w' assume "v' \<in> set vs" "I w'"
    then show "grows Q w' (world_of (flip_video h cvt p original counterpart s v' w'))"
      by (intro Cons.prems(1)) simp_all
  qed
  have "grows Q w (world_of (and_then (flip_video h cvt p original counterpart s v w)
      (flip_video_list h cvt p original counterpart s vs)))"
    using Cons.prems(2) pres first rest by (rule grows_and_then_inv [where I = I])
  then show ?case by simp
qed

lemma flip_split_grows:
  assumes mk: "\<And>q. Q (Mkdir q)"
    and step: "\<And>v w. endswith v VIDEO_EXT \<Longrightarrow> I w \<Longrightarrow>
      grows Q w (world_of (flip_video h cvt p original counterpart s v w))"
    and pres: "\<And>w w'. I w \<Longrightarrow> grows Q w w' \<Longrightarrow> I w'"
    and "I w"
  shows "grows Q w (world_of (flip_split h cvt p original counterpart s w))"
proof -
  let ?videos = "\<lambda>w2. case listdir (files w2) (p @ [''videos_'' @ s, original]) of
                   Inl e \<Rightarrow> Failed e w2
                 | Inr ls \<Rightarrow>
                     flip_video_list h cvt p original counterpart s
                       (filter (\<lambda>video. endswith video VIDEO_EXT) ls) w2"
  have v: "grows Q w2 (world_of (?videos w2))" if "I w2" for w2
  proof (cases "listdir (files w2) (p @ [''videos_'' @ s, original])")
    case (Inl e)
    then show ?thesis by (simp add: grows_refl)
  next
    case (Inr ls)
    have "grows Q w2 (world_of (flip_video_list h cvt p original counterpart s
        (filter (\<lambda>video. endswith video VIDEO_EXT) ls) w2))"
    proof (rule flip_video_list_grows [where I = I, OF _ pres that])
      fix v w' assume "v \<in> set (filter (\<lambda>video. endswith video VIDEO_EXT) ls)" "I w'"
      then show "grows Q w' (world_of (flip_video h cvt p original counterpart s v w'))"
        by (intro step) simp_all
    qed
    with Inr show ?thesis by (simp only: sum.case)
  qed
  let ?tags = "\<lambda>w1. and_then (makedirs (p @ [''tags_'' @ s, counterpart]) w1) ?videos"
  have t: "grows Q w1 (world_of (?tags w1))" if "I w1" for w1
    using that pres makedirs_grows [of Q, OF mk] v by (rule grows_and_then_inv [where I = I])
  have "grows Q w (world_of (and_then (makedirs (p @ [''videos_'' @ s, counterpart]) w) ?tags))"
    using \<open>I w\<close> pres makedirs_grows [of Q, OF mk] t by (rule grows_and_then_inv [where I = I])
  then show ?thesis unfolding flip_split_def .
qed

lemma flip_splits_grows:
  assumes mk: "\<And>q. Q (Mkdir q)"
    and step: "\<And>s v w. endswith v VIDEO_EXT \<Longrightarrow> I w \<Longrightarrow>
      grows Q w (world_of (flip_video h cvt p original counterpart s v w))"
    and pres: "\<And>w w'. I w \<Longrightarrow> grows Q w w' \<Longrightarrow> I w'"
    and "I w"
  shows "grows Q w (world_of (flip_splits h cvt p original counterpart splits w))"
  using \<open>I w\<close>
proof (induction splits arbitrary: w)
  case Nil
  show ?case by (simp add: grows_refl)
next
  case (Cons s splits)
  have first: "grows Q w (world_of (flip_split h cvt p original counterpart s w))"
    using mk step pres Cons.prems by (rule flip_split_grows [where I = I])
  have "grows Q w (world_of (and_then (flip_split h cvt p original counterpart s w)
      (flip_splits h cvt p original counterpart splits)))"
    using Cons.prems pres first Cons.IH by (rule grows_and_then_inv [where I = I])
  then show ?case by simp
qed

subsection \<open>Flipping videos: the counterpart class\<close>

lemma growsD:
  assumes "grows Q w w'"
  shows "configs w' = configs w"
    and "\<exists>evs. trace w' = trace w @ evs \<and> (\<forall>e \<in> set evs. Q e)"
proof -
  from assms show "configs w' = configs w" by (simp add: grows_def)
  from assms have "steps_only Q w w'" by (simp add: grows_def)
  from steps_onlyD [OF this] show "\<exists>evs. trace w' = trace w @ evs \<and> (\<forall>e \<in> set evs. Q e)"
    by (simp add: list_all_iff)
qed

lemma load_project_config_cong:
  "configs w' = configs w \<Longrightarrow> load_project_config w' p = load_project_config w p"
  by (simp add: load_project_config_def)

lemma flip_splits_quiet:
  "grows (\<lambda>e. \<not> is_config_write e) w
     (world_of (flip_splits h cvt p original counterpart splits w))"
proof (rule flip_splits_grows [where I = "\<lambda>_. True"])
  show "\<not> is_config_write (Mkdir q)" for q by simp
  show "grows (\<lambda>e. \<not> is_config_write e) w'
      (world_of (flip_video h cvt p original counterpart s v w'))" for s v w'
    by (rule flip_video_grows) simp_all
qed simp_all

lemma copy_requested_both:
  "map_of cvt ''train'' = Some a \<Longrightarrow> map_of cvt ''valid'' = Some b \<Longrightarrow>
   copy_requested cvt = Inr (a \<noteq> [] \<or> b \<noteq> [])"
  by (simp add: copy_requested_def)

lemma flip_videos_after_write:
  assumes "lookup_project_path w project = Some p"
    and "load_project_config w p = Some c"
    and "add_counterpart_class cvt p c original counterpart w = Done (write_project_config p c' w)"
  shows "load_project_config (world_of (flip_videos h project counterpart original cvt w)) p = Some c' \<and>
         (\<exists>evs. trace (world_of (flip_videos h project counterpart original cvt w)) =
                  trace w @ ConfigWrite p # evs \<and> (\<forall>e \<in> set evs. \<not> is_config_write e))"
proof -
  let ?w0 = "write_project_config p c' w"
  let ?r = "flip_splits h cvt p original counterpart SPLITS ?w0"
  have eq: "flip_videos h project counterpart original cvt w = ?r"
    using assms by (simp add: flip_videos_def)
  note g = growsD [OF flip_splits_quiet [of ?w0 h cvt p original counterpart SPLITS]]
  from load_project_config_cong [OF g(1)]
  have 1: "load_project_config (world_of ?r) p = Some c'"
    by (simp add: load_write_project_config)
  from g(2) obtain evs where "trace (world_of ?r) = trace ?w0 @ evs"
    and q: "\<forall>e \<in> set evs. \<not> is_config_write e" by blast
  then have "trace (world_of ?r) = trace w @ ConfigWrite p # evs"
    by (simp add: write_project_config_frame)
  with q have "\<exists>evs. trace (world_of ?r) = trace w @ ConfigWrite p # evs \<and>
      (\<forall>e \<in> set evs. \<not> is_config_write e)" by blast
  with 1 show ?thesis unfolding eq by (rule conjI)
qed

text \<open>
  C9: in \<^verbatim>\<open>flip_videos\<close>, for a request that names the copy lists of both splits, a
  counterpart class that is not a key of \<open>classes\<close> yet is created by one configuration
  write that is the first effect of the handler and the only configuration write: with the
  tag list of the original class when one of the two copy lists is not empty (\<open>KeyError\<close>,
  nothing written, when the original is no class), with the empty tag list when both are
  empty; the splits are processed after it and leave the configuration as written. When
  the counterpart class exists the handler writes no configuration at all.
\<close>

theorem flip_videos_counterpart_class:
  assumes "lookup_project_path w project = Some p"
    and "load_project_config w p = Some c"
    and "map_of cvt ''train'' = Some a" and "map_of cvt ''valid'' = Some b"
  shows "(map_of (classes c) counterpart = None \<longrightarrow>
            (a \<noteq> [] \<or> b \<noteq> [] \<longrightarrow>
               (map_of (classes c) original = None \<longrightarrow>
                  flip_videos h project counterpart original cvt w = Failed KeyError w) \<and>
               (\<forall>ts. map_of (classes c) original = Some ts \<longrightarrow>
                  load_project_config (world_of (flip_videos h project counterpart original cvt w)) p =
                    Some (c\<lparr>classes := AList.update counterpart ts (classes c)\<rparr>) \<and>
                  (\<exists>evs. trace (world_of (flip_videos h project counterpart original cvt w)) =
                           trace w @ ConfigWrite p # evs \<and>
                         (\<forall>e \<in> set evs. \<not> is_config_write e)))) \<and>
            (a = [] \<and> b = [] \<longrightarrow>
               load_project_config (world_of (flip_videos h project counterpart original cvt w)) p =
                 Some (c\<lparr>classes := AList.update counterpart [] (classes c)\<rparr>) \<and>
               (\<exists>evs. trace (world_of (flip_videos h project counterpart original cvt w)) =
                        trace w @ ConfigWrite p # evs \<and>
                      (\<forall>e \<in> set evs. \<not> is_config_write e)))) \<and>
         (map_of (classes c) counterpart \<noteq> None \<longrightarrow>
            configs (world_of (flip_videos h project counterpart original cvt w)) = configs w \<and>
            (\<exists>evs. trace (world_of (flip_videos h project counterpart original cvt w)) =
                     trace w @ evs \<and>
                   (\<forall>e \<in> set evs. \<not> is_config_write e)))"
  (is "(_ \<longrightarrow> (_ \<longrightarrow> ?K \<and> ?T) \<and> (_ \<longrightarrow> ?E)) \<and> (_ \<longrightarrow> ?P)")
proof -
  note cr = copy_requested_both [OF assms(3,4)]
  have k: ?K if "map_of (classes c) counterpart = None" "a \<noteq> [] \<or> b \<noteq> []"
  proof
    assume "map_of (classes c) original = None"
    with that cr have "add_counterpart_class cvt p c original counterpart w = Failed KeyError w"
      by (simp add: add_counterpart_class_def)
    with assms(1,2) show "flip_videos h project counterpart original cvt w = Failed KeyError w"
      by (simp add: flip_videos_def)
  qed
  have t: ?T if "map_of (classes c) counterpart = None" "a \<noteq> [] \<or> b \<noteq> []"
  proof (intro allI impI)
    fix ts assume "map_of (classes c) original = Some ts"
    with that cr have "add_counterpart_class cvt p c original counterpart w =
        Done (write_project_config p (c\<lparr>classes := AList.update counterpart ts (classes c)\<rparr>) w)"
      by (simp add: add_counterpart_class_def)
    from flip_videos_after_write [OF assms(1,2) this]
    show "load_project_config (world_of (flip_videos h project counterpart original cvt w)) p =
                    Some (c\<lparr>classes := AList.update counterpart ts (classes c)\<rparr>) \<and>
                  (\<exists>evs. trace (world_of (flip_videos h project counterpart original cvt w)) =
                           trace w @ ConfigWrite p # evs \<and>
                         (\<forall>e \<in> set evs. \<not> is_config_write e))" .
  qed
  have e: ?E if "map_of (classes c) counterpart = None" "a = [] \<and> b = []"
  proof -
    from that cr have "add_counterpart_class cvt p c original counterpart w =
        Done (write_project_config p (c\<lparr>classes := AList.update counterpart [] (classes c)\<rparr>) w)"
      by (simp add: add_counterpart_class_def)
    from flip_videos_after_write [OF assms(1,2) this] show ?thesis .
  qed
  have p: ?P if "map_of (classes c) counterpart \<noteq> None"
  proof -
    from that have "add_counterpart_class cvt p c original counterpart w = Done w"
      by (auto simp: add_counterpart_class_def)
    with assms(1,2) have eq: "flip_videos h project counterpart original cvt w =
        flip_splits h cvt p original counterpart SPLITS w"
      by (simp add: flip_videos_def)
    note g = growsD [OF flip_splits_quiet [of w h cvt p original counterpart SPLITS]]
    from g show ?thesis unfolding eq by (rule conjI)
  qed
  have A: "map_of (classes c) counterpart = None \<longrightarrow>
      (a \<noteq> [] \<or> b \<noteq> [] \<longrightarrow> ?K \<and> ?T) \<and> (a = [] \<and> b = [] \<longrightarrow> ?E)"
  proof (rule impI, rule conjI)
    assume n: "map_of (classes c) counterpart = None"
    show "a \<noteq> [] \<or> b \<noteq> [] \<longrightarrow> ?K \<and> ?T"
    proof (rule impI)
      assume x: "a \<noteq> [] \<or> b \<noteq> []"
      from k [OF n x] t [OF n x] show "?K \<and> ?T" by (rule conjI)
    qed
    show "a = [] \<and> b = [] \<longrightarrow> ?E" using e [OF n] by (rule impI)
  qed
  have B: "map_of (classes c) counterpart \<noteq> None \<longrightarrow> ?P" using p by (rule impI)
  from A B show ?thesis by (rule conjI)
qed

theorem flip_videos_counterpart_class_witness:
  "load_project_config
     (world_of (flip_videos (\<lambda>c. Some c) ''gestures'' ''left_flipped'' ''left''
                  [(''train'', [''a.mp4'']), (''valid'', [])] sample_world)) sample_path =
     Some (sample_config\<lparr>classes := AList.update ''left_flipped'' [0, 1] (classes sample_config)\<rparr>) \<and>
   load_project_config
     (world_of (flip_videos (\<lambda>c. Some c) ''gestures'' ''left_flipped'' ''left''
                  [(''train'', []), (''valid'', [])] sample_world)) sample_path =
     Some (sample_config\<lparr>classes := AList.update ''left_flipped'' [] (classes sample_config)\<rparr>) \<and>
   configs
     (world_of (flip_videos (\<lambda>c. Some c) ''gestures'' ''right'' ''left''
                  [(''train'', [''a.mp4'']), (''valid'', [])] sample_world)) =
     configs sample_world"
proof -
  have m1: "map_of [(''train'', [''a.mp4'']), (''valid'', [])] ''train'' = Some [''a.mp4'']"
    and m2: "map_of [(''train'', [''a.mp4'']), (''valid'', [])] ''valid'' = Some []"
    and n1: "map_of [(''train'', []), (''valid'', [])] ''train'' = Some []"
    and n2: "map_of [(''train'', []), (''valid'', [])] ''valid'' = Some []"
    by simp_all
  have absent: "map_of (classes sample_config) ''left_flipped'' = None"
    by (simp add: sample_config_def)
  have present: "map_of (classes sample_config) ''right'' \<noteq> None"
    by (simp add: sample_config_def)
  have req: "[''a.mp4''] \<noteq> [] \<or> ([] :: string list) \<noteq> []" by simp
  have nreq: "([] :: string list) = [] \<and> ([] :: string list) = []" by simp
  note t1 = flip_videos_counterpart_class [OF sample_lookup sample_load m1 m2,
      where counterpart = "''left_flipped''" and original = "''left''" and h = "\<lambda>c. Some c",
      THEN conjunct1, THEN mp, OF absent, THEN conjunct1, THEN mp, OF req, THEN conjunct2,
      THEN spec, THEN mp, OF sample_classes(1), THEN conjunct1]
  note t2 = flip_videos_counterpart_class [OF sample_lookup sample_load n1 n2,
      where counterpart = "''left_flipped''" and original = "''left''" and h = "\<lambda>c. Some c",
      THEN conjunct1, THEN mp, OF absent, THEN conjunct2, THEN mp, OF nreq, THEN conjunct1]
  note t3 = flip_videos_counterpart_class [OF sample_lookup sample_load m1 m2,
      where counterpart = "''right''" and original = "''left''" and h = "\<lambda>c. Some c",
      THEN conjunct2, THEN mp, OF present, THEN conjunct1]
  show ?thesis by (intro conjI t1 t2 t3)
qed

text \<open>Removing the marker keeps the extension; so the flipped name of a video is a video name.\<close>

lemma split_py_nonempty: "split_py sep s \<noteq> []"
  by (induction sep s rule: split_py.induct) (simp_all split: list.splits)

lemma concat_split_py_Cons:
  assumes "\<not> (sep \<noteq> [] \<and> prefix sep (c # cs))"
  shows "concat (split_py sep (c # cs)) = c # concat (split_py sep cs)"
proof (cases "split_py sep cs")
  case Nil
  with split_py_nonempty [of sep cs] show ?thesis by simp
next
  case (Cons piece pieces)
  with assms show ?thesis by auto
qed

lemma prefix_before:
  assumes "prefix sep (u @ c # e)" and "c \<notin> set sep"
  shows "prefix sep u"
proof -
  from assms(1) have "prefix sep u \<or> (\<exists>us. sep = u @ us \<and> prefix us (c # e))"
    by (simp add: prefix_append)
  then show ?thesis
  proof
    assume "prefix sep u" then show ?thesis .
  next
    assume "\<exists>us. sep = u @ us \<and> prefix us (c # e)"
    then obtain us where us: "sep = u @ us" "prefix us (c # e)" by blast
    show ?thesis
    proof (cases us)
      case Nil
      with us show ?thesis by simp
    next
      case (Cons x xs)
      with us(2) have "x = c" by simp
      with Cons us(1) assms(2) show ?thesis by simp
    qed
  qed
qed

lemma concat_split_py_keeps:
  assumes "c \<notin> set sep" and "sep \<noteq> []"
  shows "concat (split_py sep (u @ c # e)) = concat (split_py sep u) @ c # concat (split_py sep e)"
proof (induction "length u" arbitrary: u rule: less_induct)
  case less
  show ?case
  proof (cases u)
    case Nil
    have "\<not> prefix sep (c # e)"
    proof
      assume "prefix sep (c # e)"
      then have "prefix sep ([] @ c # e)" by simp
      then have "prefix sep []" using assms(1) by (rule prefix_before)
      with assms(2) show False by simp
    qed
    then have "concat (split_py sep (c # e)) = c # concat (split_py sep e)"
      by (intro concat_split_py_Cons) simp
    with Nil show ?thesis by simp
  next
    case (Cons x xs)
    show ?thesis
    proof (cases "prefix sep (x # xs)")
      case True
      then have len: "length sep \<le> length (x # xs)" by (rule prefix_length_le)
      from True have long: "prefix sep (x # xs @ c # e)"
        by (metis append_Cons prefix_prefix)
      from assms(2) len have short: "length (drop (length sep) (x # xs)) < length u"
        unfolding Cons by (cases sep) simp_all
      have d: "drop (length sep) (x # xs @ c # e) = drop (length sep) (x # xs) @ c # e"
      proof -
        have "drop (length sep) ((x # xs) @ c # e) =
            drop (length sep) (x # xs) @ drop (length sep - length (x # xs)) (c # e)"
          by (rule drop_append)
        moreover from len have "length sep - length (x # xs) = 0" by simp
        ultimately show ?thesis by (simp only: append_Cons drop_0)
      qed
      have "concat (split_py sep (x # xs @ c # e)) =
          concat (split_py sep (drop (length sep) (x # xs) @ c # e))"
        using long assms(2) by (simp only: split_py.simps d) simp
      also have "\<dots> = concat (split_py sep (drop (length sep) (x # xs))) @ c # concat (split_py sep e)"
        by (rule less [OF short])
      also have "concat (split_py sep (drop (length sep) (x # xs))) = concat (split_py sep (x # xs))"
        using True assms(2) by (simp only: split_py.simps) simp
      finally show ?thesis unfolding Cons by simp
    next
      case False
      have nl: "\<not> prefix sep (x # xs @ c # e)"
      proof
        assume "prefix sep (x # xs @ c # e)"
        then have "prefix sep ((x # xs) @ c # e)" by simp
        then have "prefix sep (x # xs)" using assms(1) by (rule prefix_before)
        with False show False ..
      qed
      have "concat (split_py sep (x # xs @ c # e)) = x # concat (split_py sep (xs @ c # e))"
        by (rule concat_split_py_Cons) (simp add: nl)
      also have "concat (split_py sep (xs @ c # e)) =
          concat (split_py sep xs) @ c # concat (split_py sep e)"
        by (rule less) (simp add: Cons)
      also have "x # concat (split_py sep xs) @ c # concat (split_py sep e) =
          concat (split_py sep (x # xs)) @ c # concat (split_py sep e)"
        using concat_split_py_Cons [of sep x xs] False by simp
      finally show ?thesis unfolding Cons by simp
    qed
  qed
qed

lemma flipped_name_ext:
  assumes "endswith video VIDEO_EXT" and "flipped_video_name video = Inr fl"
  shows "endswith fl VIDEO_EXT"
proof (cases "contains video ''_flipped''")
  case True
  from assms(1) obtain u where u: "video = u @ CHR ''.'' # ''mp4''"
    by (auto simp: endswith_def VIDEO_EXT_def suffix_def)
  have m: "concat (split_py ''_flipped'' ''mp4'') = ''mp4''" by code_simp
  have "concat (split_py ''_flipped'' (u @ CHR ''.'' # ''mp4'')) =
      concat (split_py ''_flipped'' u) @ CHR ''.'' # concat (split_py ''_flipped'' ''mp4'')"
    by (rule concat_split_py_keeps) simp_all
  with True assms(2) u m have "fl = concat (split_py ''_flipped'' u) @ CHR ''.'' # ''mp4''"
    by (simp add: flipped_video_name_def)
  then show ?thesis by (simp add: endswith_def VIDEO_EXT_def suffix_def)
next
  case False
  with assms(2) obtain stem where "fl = stem @ ''_flipped'' @ VIDEO_EXT"
    by (auto simp: flipped_video_name_def split: list.splits)
  then show ?thesis by (simp add: endswith_def suffix_def)
qed

subsection \<open>Flipping videos: videos that were flipped before\<close>

lemma exists_child:
  assumes "exists_path t (d @ [n])"
  shows "n \<in> set (children t d)"
proof -
  from assms have "d @ [n] \<in> fst ` set t" by (simp add: exists_path_iff)
  then obtain e where e: "e \<in> set t" "fst e = d @ [n]" by auto
  then have "fst e \<noteq> [] \<and> butlast (fst e) = d" "last (fst e) = n" by simp_all
  with e(1) have "n \<in> (\<lambda>e. last (fst e)) ` {e \<in> set t. fst e \<noteq> [] \<and> butlast (fst e) = d}"
    by blast
  then show ?thesis by (simp add: children_def)
qed

text \<open>A video whose flipped name is among the counterpart videos is left alone.\<close>

lemma flip_video_skip:
  assumes "flipped_video_name video = Inr fl"
    and "exists_path (files w) (p @ [''videos_'' @ split, counterpart, fl])"
    and "endswith fl VIDEO_EXT"
  shows "world_of (flip_video h cvt p original counterpart split video w) = w"
proof (cases "listdir (files w) (p @ [''videos_'' @ split, counterpart])")
  case (Inl e)
  then show ?thesis by (simp add: flip_video_def Let_def)
next
  case (Inr ls)
  from assms(2) have "exists_path (files w) ((p @ [''videos_'' @ split, counterpart]) @ [fl])"
    by simp
  then have "fl \<in> set (children (files w) (p @ [''videos_'' @ split, counterpart]))"
    by (rule exists_child)
  with listdir_Inr [OF Inr] assms(3)
  have m: "fl \<in> set (filter (\<lambda>op_video. endswith op_video VIDEO_EXT) ls)" by simp
  show ?thesis unfolding flip_video_def Let_def Inr assms(1)
    by (simp only: sum.case m not_True_eq_False if_False world_of.simps)
qed

lemma add_counterpart_class_world:
  "files (world_of (add_counterpart_class cvt p c original counterpart w)) = files w \<and>
   (trace (world_of (add_counterpart_class cvt p c original counterpart w)) = trace w \<or>
    trace (world_of (add_counterpart_class cvt p c original counterpart w)) =
      trace w @ [ConfigWrite p])"
  by (simp add: add_counterpart_class_def write_project_config_frame
      split: sum.splits bool.splits option.splits)

text \<open>
  A video whose flipped name is among the counterpart videos when the handler starts gets no
  event of its own, however the handler ends.
\<close>

lemma flip_videos_skip_events:
  assumes "lookup_project_path w project = Some p"
    and "flipped_video_name video = Inr fl"
    and "exists_path (files w) (p @ [''videos_'' @ split, counterpart, fl])"
  shows "\<exists>evs. trace (world_of (flip_videos h project counterpart original cvt w)) = trace w @ evs \<and>
               (\<forall>e \<in> set evs. \<not> is_video_event split video e)"
proof -
  let ?Q = "\<lambda>e. \<not> is_video_event split video e"
  let ?I = "\<lambda>w. exists_path (files w) (p @ [''videos_'' @ split, counterpart, fl])"
  have pres: "?I w2" if "?I w1" "grows ?Q w1 w2" for w1 w2
    using that by (simp add: grows_def)
  have step: "grows ?Q w1 (world_of (flip_video h cvt p original counterpart s v w1))"
    if v: "endswith v VIDEO_EXT" and i: "?I w1" for s v w1
  proof (cases "s = split \<and> v = video")
    case True
    with v assms(2) have "endswith fl VIDEO_EXT" by (simp add: flipped_name_ext)
    from flip_video_skip [OF assms(2) i this] True show ?thesis by (simp add: grows_refl)
  next
    case False
    show ?thesis by (rule flip_video_grows) (use False in simp_all)
  qed
  have splits: "grows ?Q w1 (world_of (flip_splits h cvt p original counterpart SPLITS w1))"
    if "?I w1" for w1
  proof (rule flip_splits_grows [where I = ?I])
    show "?Q (Mkdir q)" for q by simp
    show "?I w1" by (rule that)
  qed (rule step, assumption+, rule pres, assumption+)
  have "steps_only ?Q w (world_of (flip_videos h project counterpart original cvt w))"
  proof (cases "load_project_config w p")
    case None
    with assms(1) show ?thesis by (simp add: flip_videos_def steps_only_refl)
  next
    case (Some c)
    let ?a = "add_counterpart_class cvt p c original counterpart w"
    note a = add_counterpart_class_world [of cvt p c original counterpart w]
    from a have a1: "steps_only ?Q w (world_of ?a)"
      by (auto simp: steps_only_def)
    from a assms(3) have a2: "?I (world_of ?a)" by simp
    have "steps_only ?Q w (world_of (and_then ?a (flip_splits h cvt p original counterpart SPLITS)))"
    proof (cases ?a)
      case (Failed e w1)
      with a1 show ?thesis by simp
    next
      case (Done w1)
      with a1 a2 have "steps_only ?Q w w1" "?I w1" by simp_all
      moreover from splits [OF \<open>?I w1\<close>]
      have "steps_only ?Q w1 (world_of (flip_splits h cvt p original counterpart SPLITS w1))"
        by (simp add: grows_def)
      ultimately show ?thesis using Done by (simp add: steps_only_trans [of ?Q w w1])
    qed
    with assms(1) Some show ?thesis by (simp add: flip_videos_def)
  qed
  from steps_onlyD [OF this] show ?thesis by (simp add: list_all_iff)
qed

subsection \<open>Flipping videos: tags are copied after rendering\<close>

lemma tags_after_render_mono:
  "tags_after_render seen es \<Longrightarrow> set seen \<subseteq> set seen' \<Longrightarrow> tags_after_render seen' es"
proof (induction seen es arbitrary: seen' rule: tags_after_render.induct)
  case (2 seen s v a b es)
  from "2.prems" have "tags_after_render ((s, v) # seen) es" "set ((s, v) # seen) \<subseteq> set ((s, v) # seen')"
    by auto
  then have "tags_after_render ((s, v) # seen') es" by (rule "2.IH")
  then show ?case by simp
qed auto

lemma tags_after_render_append:
  "tags_after_render seen a \<Longrightarrow> tags_after_render [] b \<Longrightarrow> tags_after_render seen (a @ b)"
proof (induction seen a rule: tags_after_render.induct)
  case (1 seen)
  then show ?case by (simp add: tags_after_render_mono [of "[]" b seen])
qed simp_all

lemma orderly_refl: "orderly w w"
  by (simp add: orderly_def)

lemma orderlyI:
  "trace w' = trace w @ evs \<Longrightarrow> tags_after_render [] evs \<Longrightarrow> orderly w w'"
  by (simp add: orderly_def)

lemma orderlyD:
  "orderly w w' \<Longrightarrow> \<exists>evs. trace w' = trace w @ evs \<and> tags_after_render [] evs"
  by (auto simp: orderly_def prefix_def)

lemma orderly_trans:
  assumes "orderly w w1" and "orderly w1 w2"
  shows "orderly w w2"
proof -
  from orderlyD [OF assms(1)] obtain e1 where e1: "trace w1 = trace w @ e1" "tags_after_render [] e1"
    by blast
  from orderlyD [OF assms(2)] obtain e2 where e2: "trace w2 = trace w1 @ e2" "tags_after_render [] e2"
    by blast
  from e1(2) e2(2) have "tags_after_render [] (e1 @ e2)" by (rule tags_after_render_append)
  moreover from e1(1) e2(1) have "trace w2 = trace w @ (e1 @ e2)" by simp
  ultimately show ?thesis by (rule orderlyI [rotated])
qed

lemma orderly_and_then:
  assumes "orderly w (world_of r)" and "\<And>w1. orderly w1 (world_of (f w1))"
  shows "orderly w (world_of (and_then r f))"
proof (cases r)
  case (Done w1)
  with assms(1) have "orderly w w1" by simp
  then have "orderly w (world_of (f w1))" using assms(2) by (rule orderly_trans)
  with Done show ?thesis by simp
next
  case (Failed e w1)
  with assms(1) show ?thesis by simp
qed

lemma mkdirs_orderly: "list_all is_mkdir es \<Longrightarrow> tags_after_render seen es"
proof (induction es)
  case Nil
  show ?case by simp
next
  case (Cons e es)
  then show ?case by (cases e) simp_all
qed

lemma video_events_orderly:
  "list_all (is_video_event s v) es \<Longrightarrow> (s, v) \<in> set seen \<Longrightarrow> tags_after_render seen es"
proof (induction es arbitrary: seen)
  case Nil
  show ?case by simp
next
  case (Cons e es)
  then show ?case by (cases e) simp_all
qed

lemma makedirs_orderly: "orderly w (world_of (makedirs q w))"
proof -
  have "grows is_mkdir w (world_of (makedirs q w))" by (rule makedirs_grows) simp
  then have "steps_only is_mkdir w (world_of (makedirs q w))" by (simp add: grows_def)
  from steps_onlyD [OF this] obtain evs where
    "trace (world_of (makedirs q w)) = trace w @ evs" "list_all is_mkdir evs" by blast
  from this(1) mkdirs_orderly [OF this(2)] show ?thesis by (rule orderlyI)
qed

lemma ffmpeg_run_trace:
  "ffmpeg_run h s v fi fo w = Done w' \<Longrightarrow> trace w' = trace w @ [Render s v fi fo]"
  "ffmpeg_run h s v fi fo w = Failed e w' \<Longrightarrow> w' = w"
  by (auto simp: ffmpeg_run_def split: option.splits node.splits sum.splits)

lemma flip_video_orderly:
  "orderly w (world_of (flip_video h cvt p original counterpart s v w))"
proof (cases "listdir (files w) (p @ [''videos_'' @ s, counterpart])")
  case (Inl e)
  then show ?thesis by (simp add: flip_video_def Let_def orderly_refl)
next
  case (Inr ls)
  show ?thesis
  proof (cases "flipped_video_name v")
    case (Inl e)
    with Inr show ?thesis by (simp add: flip_video_def Let_def orderly_refl)
  next
    case fl: (Inr fl)
    show ?thesis
    proof (cases "fl \<in> set (filter (\<lambda>op_video. endswith op_video VIDEO_EXT) ls)")
      case True
      with Inr fl show ?thesis by (simp add: flip_video_def Let_def orderly_refl)
    next
      case False
      let ?run = "ffmpeg_run h s v ((p @ [''videos_'' @ s, original]) @ [v])
                    ((p @ [''videos_'' @ s, counterpart]) @ [fl]) w"
      let ?k = "\<lambda>w'. case map_of cvt s of
                       None \<Rightarrow> Failed KeyError w'
                     | Some vs \<Rightarrow>
                         if v \<in> set vs
                         then copy_tags s v fl (p @ [''tags_'' @ s, original])
                                (p @ [''tags_'' @ s, counterpart]) w'
                         else Done w'"
      have k: "steps_only (is_video_event s v) w1 (world_of (?k w1))" for w1
      proof (cases "map_of cvt s")
        case None
        then show ?thesis by (simp add: steps_only_refl)
      next
        case (Some vs)
        have "grows (is_video_event s v) w1
            (world_of (copy_tags s v fl (p @ [''tags_'' @ s, original])
                         (p @ [''tags_'' @ s, counterpart]) w1))"
          by (rule copy_tags_grows) simp_all
        with Some show ?thesis by (simp add: steps_only_refl grows_def)
      qed
      have G: "orderly w (world_of (and_then ?run ?k))"
      proof (cases ?run)
        case (Failed e w1)
        with ffmpeg_run_trace(2) [OF Failed] show ?thesis by (simp add: orderly_refl)
      next
        case (Done w1)
        from steps_onlyD [OF k [of w1]] obtain evs where
          evs: "trace (world_of (?k w1)) = trace w1 @ evs" "list_all (is_video_event s v) evs"
          by blast
        from evs(2) have "tags_after_render [(s, v)] evs"
          by (rule video_events_orderly) simp
        then have "tags_after_render []
            (Render s v ((p @ [''videos_'' @ s, original]) @ [v])
               ((p @ [''videos_'' @ s, counterpart]) @ [fl]) # evs)"
          by (simp only: tags_after_render.simps)
        moreover from evs(1) ffmpeg_run_trace(1) [OF Done]
        have "trace (world_of (?k w1)) = trace w @
            (Render s v ((p @ [''videos_'' @ s, original]) @ [v])
               ((p @ [''videos_'' @ s, counterpart]) @ [fl]) # evs)"
          by (simp only: append_assoc append_Cons append_Nil)
        ultimately have "orderly w (world_of (?k w1))" by (rule orderlyI [rotated])
        then show ?thesis by (simp only: Done and_then.simps)
      qed
      have eq: "flip_video h cvt p original counterpart s v w = and_then ?run ?k"
        unfolding flip_video_def Let_def Inr fl
        by (simp only: sum.case False not_False_eq_True if_True)
      show ?thesis unfolding eq by (rule G)
    qed
  qed
qed

lemma flip_video_list_orderly:
  "orderly w (world_of (flip_video_list h cvt p original counterpart s vs w))"
proof (induction vs arbitrary: w)
  case Nil
  show ?case by (simp add: orderly_refl)
next
  case (Cons v vs)
  have "orderly w (world_of (and_then (flip_video h cvt p original counterpart s v w)
      (flip_video_list h cvt p original counterpart s vs)))"
    by (rule orderly_and_then [OF flip_video_orderly]) (rule Cons.IH)
  then show ?case by simp
qed

lemma flip_split_orderly:
  "orderly w (world_of (flip_split h cvt p original counterpart s w))"
proof -
  let ?videos = "\<lambda>w2. case listdir (files w2) (p @ [''videos_'' @ s, original]) of
                   Inl e \<Rightarrow> Failed e w2
                 | Inr ls \<Rightarrow>
                     flip_video_list h cvt p original counterpart s
                       (filter (\<lambda>video. endswith video VIDEO_EXT) ls) w2"
  have v: "orderly w2 (world_of (?videos w2))" for w2
  proof (cases "listdir (files w2) (p @ [''videos_'' @ s, original])")
    case (Inl e)
    then show ?thesis by (simp add: orderly_refl)
  next
    case (Inr ls)
    from flip_video_list_orderly [of w2 h cvt p original counterpart s
        "filter (\<lambda>video. endswith video VIDEO_EXT) ls"] Inr
    show ?thesis by (simp only: sum.case)
  qed
  let ?tags = "\<lambda>w1. and_then (makedirs (p @ [''tags_'' @ s, counterpart]) w1) ?videos"
  have t: "orderly w1 (world_of (?tags w1))" for w1
    by (rule orderly_and_then [OF makedirs_orderly]) (rule v)
  have "orderly w (world_of (and_then (makedirs (p @ [''videos_'' @ s, counterpart]) w) ?tags))"
    by (rule orderly_and_then [OF makedirs_orderly]) (rule t)
  then show ?thesis unfolding flip_split_def .
qed

lemma flip_splits_orderly:
  "orderly w (world_of (flip_splits h cvt p original counterpart splits w))"
proof (induction splits arbitrary: w)
  case Nil
  show ?case by (simp add: orderly_refl)
next
  case (Cons s splits)
  have "orderly w (world_of (and_then (flip_split h cvt p original counterpart s w)
      (flip_splits h cvt p original counterpart splits)))"
    by (rule orderly_and_then [OF flip_split_orderly]) (rule Cons.IH)
  then show ?case by simp
qed

lemma flip_videos_orderly:
  "orderly w (world_of (flip_videos h project counterpart original cvt w))"
proof (cases "lookup_project_path w project")
  case None
  then show ?thesis by (simp add: flip_videos_def orderly_refl)
next
  case p: (Some p)
  show ?thesis
  proof (cases "load_project_config w p")
    case None
    with p show ?thesis by (simp add: flip_videos_def orderly_refl)
  next
    case (Some c)
    let ?a = "add_counterpart_class cvt p c original counterpart w"
    from add_counterpart_class_world [of cvt p c original counterpart w]
    have "orderly w (world_of ?a)" by (auto simp: orderly_def)
    then have "orderly w (world_of (and_then ?a (flip_splits h cvt p original counterpart SPLITS)))"
      by (rule orderly_and_then) (rule flip_splits_orderly)
    with p Some show ?thesis by (simp add: flip_videos_def)
  qed
qed

text \<open>
  C10: in \<^verbatim>\<open>flip_videos\<close> tag annotations are copied only for videos rendered in the same
  call: among the events the handler adds, in every outcome, each read or write of the tag
  annotations of a video of a split comes after the rendering of that video of that split.
  And a video whose flipped name is already in the videos directory of the counterpart
  class when the handler starts is skipped as a whole: whatever the request lists for
  copying, no event reads or writes its tag annotations, and none renders it.
\<close>

theorem flip_videos_copies_tags_of_rendered:
  "\<exists>evs. trace (world_of (flip_videos h project counterpart original cvt w)) = trace w @ evs \<and>
         tags_after_render [] evs \<and>
         (\<forall>p split video fl.
            lookup_project_path w project = Some p \<and> flipped_video_name video = Inr fl \<and>
            exists_path (files w) (p @ [''videos_'' @ split, counterpart, fl]) \<longrightarrow>
            (\<forall>e \<in> set evs. \<not> is_video_event split video e))"
proof -
  let ?r = "flip_videos h project counterpart original cvt w"
  from orderlyD [OF flip_videos_orderly [of w h project counterpart original cvt]]
  obtain evs where evs: "trace (world_of ?r) = trace w @ evs" "tags_after_render [] evs"
    by blast
  have skip: "\<forall>e \<in> set evs. \<not> is_video_event split video e"
    if "lookup_project_path w project = Some p \<and> flipped_video_name video = Inr fl \<and>
        exists_path (files w) (p @ [''videos_'' @ split, counterpart, fl])"
    for p split video fl
  proof -
    from that have a: "lookup_project_path w project = Some p"
      and b: "flipped_video_name video = Inr fl"
      and c: "exists_path (files w) (p @ [''videos_'' @ split, counterpart, fl])"
      by simp_all
    from flip_videos_skip_events [OF a b c, of h original cvt] obtain evs' where
      "trace (world_of ?r) = trace w @ evs'" and q: "\<forall>e \<in> set evs'. \<not> is_video_event split video e"
      by blast
    with evs(1) have "evs' = evs" by simp
    with q show ?thesis by simp
  qed
  then have all: "\<forall>p split video fl.
            lookup_project_path w project = Some p \<and> flipped_video_name video = Inr fl \<and>
            exists_path (files w) (p @ [''videos_'' @ split, counterpart, fl]) \<longrightarrow>
            (\<forall>e \<in> set evs. \<not> is_video_event split video e)"
    by (intro allI impI)
  show ?thesis
    by (rule exI [where x = evs]) (rule conjI [OF evs(1) conjI [OF evs(2) all]])
qed

theorem flip_videos_copies_tags_of_rendered_witness:
  "exists_path (files rendered_world)
     [''data'', ''gestures'', ''videos_train'', ''left_flipped'', ''a_flipped.mp4''] \<and>
   \<not> list_ex (is_video_event ''train'' ''a.mp4'')
       (trace (world_of (flip_videos (\<lambda>c. Some c) ''gestures'' ''left_flipped'' ''left''
                           [(''train'', [''a.mp4'']), (''valid'', [])] rendered_world))) \<and>
   list_ex (is_video_event ''train'' ''a.mp4'')
       (trace (world_of (flip_videos (\<lambda>c. Some c) ''gestures'' ''left_flipped'' ''left''
                           [(''train'', [''a.mp4'']), (''valid'', [])] sample_world))) \<and>
   tags_after_render []
       (trace (world_of (flip_videos (\<lambda>c. Some c) ''gestures'' ''left_flipped'' ''left''
                           [(''train'', [''a.mp4'']), (''valid'', [])] sample_world)))"
proof -
  let ?r = "flip_videos (\<lambda>c. Some c) ''gestures'' ''left_flipped'' ''left''
              [(''train'', [''a.mp4'']), (''valid'', [])] rendered_world"
  let ?s = "flip_videos (\<lambda>c. Some c) ''gestures'' ''left_flipped'' ''left''
              [(''train'', [''a.mp4'']), (''valid'', [])] sample_world"
  have l: "lookup_project_path rendered_world ''gestures'' = Some sample_path"
    by (simp add: lookup_project_path_def load_project_overview_config_def rendered_world_def
        sample_world_def)
  have f: "flipped_video_name ''a.mp4'' = Inr ''a_flipped.mp4''" by code_simp
  have e: "exists_path (files rendered_world)
      (sample_path @ [''videos_'' @ ''train'', ''left_flipped'', ''a_flipped.mp4''])"
    by code_simp
  have e': "exists_path (files rendered_world)
     [''data'', ''gestures'', ''videos_train'', ''left_flipped'', ''a_flipped.mp4'']"
    by code_simp
  have t0: "trace rendered_world = []" "trace sample_world = []"
    by (simp_all add: rendered_world_def sample_world_def)
  have c: "list_ex (is_video_event ''train'' ''a.mp4'') (trace (world_of ?s))"
    by code_simp
  from flip_videos_copies_tags_of_rendered [of "\<lambda>c. Some c" "''gestures''" "''left_flipped''"
      "''left''" "[(''train'', [''a.mp4'']), (''valid'', [])]" rendered_world]
  obtain evs where "trace (world_of ?r) = trace rendered_world @ evs"
    and "\<forall>p split video fl.
            lookup_project_path rendered_world ''gestures'' = Some p \<and>
            flipped_video_name video = Inr fl \<and>
            exists_path (files rendered_world) (p @ [''videos_'' @ split, ''left_flipped'', fl]) \<longrightarrow>
            (\<forall>e \<in> set evs. \<not> is_video_event split video e)"
    by blast
  from this(1) this(2) [rule_format, OF conjI [OF l conjI [OF f e]]]
  have 1: "\<not> list_ex (is_video_event ''train'' ''a.mp4'') (trace (world_of ?r))"
    by (simp add: t0 list_ex_iff)
  from flip_videos_copies_tags_of_rendered [of "\<lambda>c. Some c" "''gestures''" "''left_flipped''"
      "''left''" "[(''train'', [''a.mp4'']), (''valid'', [])]" sample_world]
  have 2: "tags_after_render [] (trace (world_of ?s))"
    by (auto simp: t0)
  from e' 1 c 2 show ?thesis by (intro conjI)
qed

end
